theory Spec2Isabelle
  imports Complex_Main
begin

section \<open>JavaScript Number values\<close>

text \<open>
  The calculator of \<^verbatim>\<open>script.js\<close> keeps its operand as a string and its accumulator as a
  JavaScript Number, and moves between the two with \<^verbatim>\<open>parseFloat\<close>, \<^verbatim>\<open>parseInt\<close> and
  \<^verbatim>\<open>Number.prototype.toString\<close>.  A Number is an IEEE 754 binary64 value: NaN, the two
  infinities, or a finite value \<open>(-1)\<^sup>s \<times> m \<times> 2\<^sup>e\<close> with a 53 bit significand.  The finite values
  are kept in the canonical form of the format: \<open>2\<^sup>5\<^sup>2 \<le> m < 2\<^sup>5\<^sup>3\<close> and \<open>-1074 \<le> e \<le> 971\<close>
  for a normal number, \<open>m < 2\<^sup>5\<^sup>2\<close> and \<open>e = -1074\<close> for a subnormal number and for the two zeros.
  The flag is \<open>True\<close> for a negative sign.

  The functions of this section follow the definitions of the language standard (ECMAScript):
  the Number value of a real number, the arithmetic operators, \<^verbatim>\<open>parseFloat\<close>, \<^verbatim>\<open>parseInt\<close> with
  radix 10, and \<^verbatim>\<open>Number::toString\<close> with radix 10.  Where the standard leaves a choice (a literal
  of more than twenty digits, the last digit of the shortest digit string) the model takes
  the correctly rounded value and the digit string nearest to the Number, as the common
  implementations do.
\<close>

datatype jsnum = NaN | Infinity bool | Finite bool int int

definition canonical :: "int \<Rightarrow> int \<Rightarrow> bool" where
  "canonical m e \<longleftrightarrow>
     (2 ^ 52 \<le> m \<and> m < 2 ^ 53 \<and> - 1074 \<le> e \<and> e \<le> 971) \<or> (0 \<le> m \<and> m < 2 ^ 52 \<and> e = - 1074)"

fun wellformed :: "jsnum \<Rightarrow> bool" where
  "wellformed NaN = True"
| "wellformed (Infinity neg) = True"
| "wellformed (Finite neg m e) = canonical m e"

fun isZero :: "jsnum \<Rightarrow> bool" where
  "isZero (Finite neg m e) = (m = 0)"
| "isZero x = False"

fun isFiniteNumber :: "jsnum \<Rightarrow> bool" where
  "isFiniteNumber (Finite neg m e) = True"
| "isFiniteNumber x = False"

text \<open>
  \<open>sameValueZero\<close> is the comparison of that name of the language: equal values, with the two
  zeros identified (and NaN equal to itself, unlike \<^verbatim>\<open>===\<close>).
\<close>

definition sameValueZero :: "jsnum \<Rightarrow> jsnum \<Rightarrow> bool" where
  "sameValueZero x y \<longleftrightarrow> x = y \<or> (isZero x \<and> isZero y)"

subsection \<open>Rounding an exact value to a Number\<close>

text \<open>
  An exact non-negative rational is a pair of integers, numerator and positive denominator.
  \<open>numDigits b n\<close> counts the digits of \<open>n\<close> in base \<open>b\<close>, and \<open>ilog b n d\<close> is the integer
  \<open>L\<close> with \<open>b\<^sup>L \<le> n / d < b\<^sup>L\<^sup>+\<^sup>1\<close>, found from the digit counts of \<open>n\<close> and \<open>d\<close>.
\<close>

function numDigits :: "int \<Rightarrow> int \<Rightarrow> nat" where
  "numDigits b n = (if n < b \<or> b < 2 then 1 else Suc (numDigits b (n div b)))"
  by pat_completeness auto
termination
  by (relation "measure (\<lambda>(b, n). nat n)") (auto intro!: int_div_less_self)

declare numDigits.simps [simp del]

definition ilog :: "int \<Rightarrow> int \<Rightarrow> int \<Rightarrow> int" where
  "ilog b n d =
     (let e = int (numDigits b n) - int (numDigits b d) in
      if (if 0 \<le> e then d * b ^ nat e \<le> n else d \<le> n * b ^ nat (- e)) then e else e - 1)"

text \<open>
  The quotient of \<open>n / d\<close> by \<open>b\<^sup>e\<close> is again a fraction, \<open>scaleNum b e n / scaleDen b e d\<close>.
  \<open>roundHalfEven N D\<close> is the integer nearest to \<open>N / D\<close>, the even one of two equally near.
\<close>

definition scaleNum :: "int \<Rightarrow> int \<Rightarrow> int \<Rightarrow> int" where
  "scaleNum b e n = (if e < 0 then n * b ^ nat (- e) else n)"

definition scaleDen :: "int \<Rightarrow> int \<Rightarrow> int \<Rightarrow> int" where
  "scaleDen b e d = (if e < 0 then d else d * b ^ nat e)"

definition roundHalfEven :: "int \<Rightarrow> int \<Rightarrow> int" where
  "roundHalfEven N D =
     (let q = N div D; r = N mod D
      in if 2 * r < D then q else if D < 2 * r then q + 1 else if even q then q else q + 1)"

text \<open>
  \<open>roundFrac neg n d\<close> is the Number value for \<open>(-1)\<^sup>n\<^sup>e\<^sup>g \<times> n / d\<close>: the nearest binary64 value,
  a tie going to the even significand, \<open>2\<^sup>1\<^sup>0\<^sup>2\<^sup>4\<close> becoming the infinity, and a result zero keeping
  the sign.  The exponent \<open>e\<close> is the one of the binade of \<open>n / d\<close>, or \<open>-1074\<close> below the normal
  range; the significand is \<open>n / d / 2\<^sup>e\<close> rounded to an integer; \<open>packFinite\<close> renormalises a
  significand that rounding has carried to \<open>2\<^sup>5\<^sup>3\<close> and detects the overflow.
\<close>

definition packFinite :: "bool \<Rightarrow> int \<Rightarrow> int \<Rightarrow> jsnum" where
  "packFinite neg m e =
     (if m = 2 ^ 53
      then (if 971 < e + 1 then Infinity neg else Finite neg (2 ^ 52) (e + 1))
      else (if 971 < e then Infinity neg else Finite neg m e))"

definition roundFrac :: "bool \<Rightarrow> int \<Rightarrow> int \<Rightarrow> jsnum" where
  "roundFrac neg n d =
     (if n = 0 then Finite neg 0 (- 1074)
      else
        let e = max (ilog 2 n d - 52) (- 1074)
        in packFinite neg (roundHalfEven (scaleNum 2 e n) (scaleDen 2 e d)) e)"

subsection \<open>Arithmetic\<close>

text \<open>The operators \<^verbatim>\<open>+\<close>, \<^verbatim>\<open>-\<close>, \<^verbatim>\<open>*\<close> and \<^verbatim>\<open>/\<close> on two Numbers.\<close>

fun unaryMinus :: "jsnum \<Rightarrow> jsnum" where
  "unaryMinus NaN = NaN"
| "unaryMinus (Infinity neg) = Infinity (\<not> neg)"
| "unaryMinus (Finite neg m e) = Finite (\<not> neg) m e"

fun signedMant :: "bool \<Rightarrow> int \<Rightarrow> int" where
  "signedMant neg m = (if neg then - m else m)"

fun numAdd :: "jsnum \<Rightarrow> jsnum \<Rightarrow> jsnum" where
  "numAdd NaN y = NaN"
| "numAdd x NaN = NaN"
| "numAdd (Infinity s1) (Infinity s2) = (if s1 = s2 then Infinity s1 else NaN)"
| "numAdd (Infinity s1) (Finite s2 m2 e2) = Infinity s1"
| "numAdd (Finite s1 m1 e1) (Infinity s2) = Infinity s2"
| "numAdd (Finite s1 m1 e1) (Finite s2 m2 e2) =
     (let e = min e1 e2;
          M = signedMant s1 m1 * 2 ^ nat (e1 - e) + signedMant s2 m2 * 2 ^ nat (e2 - e)
      in if M = 0 then Finite (s1 \<and> s2) 0 (- 1074)
         else if e < 0 then roundFrac (M < 0) \<bar>M\<bar> (2 ^ nat (- e))
         else roundFrac (M < 0) (\<bar>M\<bar> * 2 ^ nat e) 1)"

definition numSub :: "jsnum \<Rightarrow> jsnum \<Rightarrow> jsnum" where
  "numSub x y = numAdd x (unaryMinus y)"

fun numMul :: "jsnum \<Rightarrow> jsnum \<Rightarrow> jsnum" where
  "numMul NaN y = NaN"
| "numMul x NaN = NaN"
| "numMul (Infinity s1) (Infinity s2) = Infinity (s1 \<noteq> s2)"
| "numMul (Infinity s1) (Finite s2 m2 e2) = (if m2 = 0 then NaN else Infinity (s1 \<noteq> s2))"
| "numMul (Finite s1 m1 e1) (Infinity s2) = (if m1 = 0 then NaN else Infinity (s1 \<noteq> s2))"
| "numMul (Finite s1 m1 e1) (Finite s2 m2 e2) =
     (let e = e1 + e2
      in if e < 0 then roundFrac (s1 \<noteq> s2) (m1 * m2) (2 ^ nat (- e))
         else roundFrac (s1 \<noteq> s2) (m1 * m2 * 2 ^ nat e) 1)"

fun numDiv :: "jsnum \<Rightarrow> jsnum \<Rightarrow> jsnum" where
  "numDiv NaN y = NaN"
| "numDiv x NaN = NaN"
| "numDiv (Infinity s1) (Infinity s2) = NaN"
| "numDiv (Infinity s1) (Finite s2 m2 e2) = Infinity (s1 \<noteq> s2)"
| "numDiv (Finite s1 m1 e1) (Infinity s2) = Finite (s1 \<noteq> s2) 0 (- 1074)"
| "numDiv (Finite s1 m1 e1) (Finite s2 m2 e2) =
     (if m2 = 0 then (if m1 = 0 then NaN else Infinity (s1 \<noteq> s2))
      else if e2 \<le> e1 then roundFrac (s1 \<noteq> s2) (m1 * 2 ^ nat (e1 - e2)) m2
      else roundFrac (s1 \<noteq> s2) m1 (m2 * 2 ^ nat (e2 - e1)))"

subsection \<open>Decimal digits\<close>

definition isDigit :: "char \<Rightarrow> bool" where
  "isDigit c \<longleftrightarrow> c \<in> set ''0123456789''"

definition digitVal :: "char \<Rightarrow> int" where
  "digitVal c = int (length (takeWhile (\<lambda>d. d \<noteq> c) ''0123456789''))"

definition digitChar :: "int \<Rightarrow> char" where
  "digitChar d = ''0123456789'' ! nat d"

definition digitsVal :: "string \<Rightarrow> int" where
  "digitsVal ds = foldl (\<lambda>a c. 10 * a + digitVal c) 0 ds"

function digitsOf :: "int \<Rightarrow> string" where
  "digitsOf n = (if n < 10 then [digitChar n] else digitsOf (n div 10) @ [digitChar (n mod 10)])"
  by pat_completeness auto
termination
  by (relation "measure nat") auto

declare digitsOf.simps [simp del]

text \<open>The value \<open>s \<times> 10\<^sup>e\<close> as a fraction.\<close>

definition mkFrac :: "int \<Rightarrow> int \<Rightarrow> int \<times> int" where
  "mkFrac s e = (if 0 \<le> e then (s * 10 ^ nat e, 1) else (s, 10 ^ nat (- e)))"

definition roundDec :: "bool \<Rightarrow> int \<Rightarrow> int \<Rightarrow> jsnum" where
  "roundDec neg s e = (case mkFrac s e of (n, d) \<Rightarrow> roundFrac neg n d)"

subsection \<open>Strings to Numbers: \<^verbatim>\<open>parseFloat\<close> and \<^verbatim>\<open>parseInt\<close>\<close>

text \<open>
  A string is a list of code units; the model covers the code units below 256, which is all
  the calculator ever stores.  \<open>isWhiteSpace\<close> holds of the white space and line terminators
  among them, which both functions skip at the start of their argument.
\<close>

definition isWhiteSpace :: "char \<Rightarrow> bool" where
  "isWhiteSpace c \<longleftrightarrow>
     c \<in> {CHR 0x09, CHR 0x0A, CHR 0x0B, CHR 0x0C, CHR 0x0D, CHR 0x20, CHR 0xA0}"

text \<open>
  The exponent part of a decimal literal: \<^verbatim>\<open>e\<close> or \<^verbatim>\<open>E\<close>, an optional sign and at least one
  digit.  Anything else is not part of the literal and counts as exponent \<open>0\<close>.
\<close>

definition exponentPart :: "string \<Rightarrow> int" where
  "exponentPart r =
     (if r \<noteq> [] \<and> (hd r = CHR ''e'' \<or> hd r = CHR ''E'') then
        let t = tl r;
            neg = (t \<noteq> [] \<and> hd t = CHR ''-'');
            u = (if t \<noteq> [] \<and> (hd t = CHR ''+'' \<or> hd t = CHR ''-'') then tl t else t);
            ds = takeWhile isDigit u
        in if ds = [] then 0 else if neg then - digitsVal ds else digitsVal ds
      else 0)"

text \<open>
  \<^verbatim>\<open>parseFloat(str)\<close>: the longest prefix of the trimmed string that is a decimal literal
  (\<^verbatim>\<open>Infinity\<close>, or digits with an optional fraction and exponent, with an optional sign),
  rounded to a Number; NaN when there is no such prefix.
\<close>

definition parseFloat :: "string \<Rightarrow> jsnum" where
  "parseFloat str =
     (let t = dropWhile isWhiteSpace str;
          neg = (t \<noteq> [] \<and> hd t = CHR ''-'');
          u = (if t \<noteq> [] \<and> (hd t = CHR ''+'' \<or> hd t = CHR ''-'') then tl t else t)
      in if take 8 u = ''Infinity'' then Infinity neg
         else
           let ip = takeWhile isDigit u;
               r1 = dropWhile isDigit u;
               hasDot = (r1 \<noteq> [] \<and> hd r1 = CHR ''.'');
               fp = (if hasDot then takeWhile isDigit (tl r1) else []);
               r2 = (if hasDot then dropWhile isDigit (tl r1) else r1)
           in if ip = [] \<and> fp = [] then NaN
              else roundDec neg (digitsVal (ip @ fp)) (exponentPart r2 - int (length fp)))"

text \<open>\<^verbatim>\<open>parseInt(str, 10)\<close>: an optional sign and the longest run of digits after it.\<close>

definition parseInt :: "string \<Rightarrow> jsnum" where
  "parseInt str =
     (let t = dropWhile isWhiteSpace str;
          neg = (t \<noteq> [] \<and> hd t = CHR ''-'');
          u = (if t \<noteq> [] \<and> (hd t = CHR ''+'' \<or> hd t = CHR ''-'') then tl t else t);
          z = takeWhile isDigit u
      in if z = [] then NaN else roundFrac neg (digitsVal z) 1)"

subsection \<open>Numbers to strings: \<^verbatim>\<open>Number.prototype.toString\<close>\<close>

text \<open>
  The language asks for integers \<open>n\<close>, \<open>k\<close>, \<open>s\<close> with \<open>10\<^sup>k\<^sup>-\<^sup>1 \<le> s < 10\<^sup>k\<close>, such that \<open>s \<times> 10\<^sup>n\<^sup>-\<^sup>k\<close>
  rounds to the Number and \<open>k\<close> is as small as possible.  The search tries \<open>k = 1, 2, \<dots>\<close>; for
  each \<open>k\<close> the two candidates are the multiples of \<open>10\<^sup>n\<^sup>-\<^sup>k\<close> on either side of the value, and
  of two that round to the Number the closer one is taken (the even one on a tie).  At the
  number of digits of the exact decimal expansion of the value the search ends with that
  expansion.  A candidate is kept without trailing zeros.
\<close>

function strip10 :: "int \<Rightarrow> int \<Rightarrow> int \<times> int" where
  "strip10 s e = (if s \<noteq> 0 \<and> s mod 10 = 0 then strip10 (s div 10) (e + 1) else (s, e))"
  by pat_completeness auto
termination
  by (relation "measure (\<lambda>(s, e). nat \<bar>s\<bar>)") auto

declare strip10.simps [simp del]

definition roundsTo :: "jsnum \<Rightarrow> int \<times> int \<Rightarrow> bool" where
  "roundsTo x c = (case c of (s, e) \<Rightarrow> roundDec False s e = x)"

definition pick :: "jsnum \<Rightarrow> int \<Rightarrow> int \<Rightarrow> int \<Rightarrow> (int \<times> int) option" where
  "pick x n d e =
     (let N = scaleNum 10 e n;
          D = scaleDen 10 e d;
          q = N div D;
          lo = strip10 q e;
          hi = strip10 (q + 1) e
      in if roundsTo x lo \<and> roundsTo x hi
         then Some (if roundHalfEven N D = q then lo else hi)
         else if roundsTo x lo then Some lo
         else if roundsTo x hi then Some hi
         else None)"

fun shortest :: "nat \<Rightarrow> jsnum \<Rightarrow> int \<Rightarrow> int \<Rightarrow> int \<Rightarrow> int \<times> int \<Rightarrow> int \<times> int" where
  "shortest 0 x n d e exact = exact"
| "shortest (Suc fuel) x n d e exact =
     (case pick x n d e of Some c \<Rightarrow> c | None \<Rightarrow> shortest fuel x n d (e - 1) exact)"

definition shortestDigits :: "int \<Rightarrow> int \<Rightarrow> int \<times> int" where
  "shortestDigits m e =
     (let n = (if e < 0 then m else m * 2 ^ nat e);
          d = (if e < 0 then 2 ^ nat (- e) else 1);
          t = (if e < 0 then m * 5 ^ nat (- e) else n);
          n0 = ilog 10 n d + 1
      in shortest (length (digitsOf t) - 1) (Finite False m e) n d (n0 - 1) (strip10 t (min e 0)))"

text \<open>
  The digits \<open>s\<close> and the position \<open>n = e + k\<close> of the decimal point give the string: plain
  notation for \<open>-5 \<le> n \<le> 21\<close>, exponent notation otherwise.
\<close>

definition formatDigits :: "int \<times> int \<Rightarrow> string" where
  "formatDigits c =
     (case c of (s, e) \<Rightarrow>
        let ds = digitsOf s;
            k = int (length ds);
            n = e + k
        in if - 5 \<le> n \<and> n \<le> 21 then
             (if k \<le> n then ds @ replicate (nat (n - k)) CHR ''0''
              else if 0 < n then take (nat n) ds @ ''.'' @ drop (nat n) ds
              else ''0.'' @ replicate (nat (- n)) CHR ''0'' @ ds)
           else
             (if k = 1 then ds else take 1 ds @ ''.'' @ drop 1 ds)
             @ ''e'' @ (if 0 \<le> n - 1 then ''+'' else ''-'') @ digitsOf \<bar>n - 1\<bar>)"

definition signPrefix :: "bool \<Rightarrow> string" where
  "signPrefix neg = (if neg then ''-'' else [])"

fun numberToString :: "jsnum \<Rightarrow> string" where
  "numberToString NaN = ''NaN''"
| "numberToString (Infinity neg) = (if neg then ''-Infinity'' else ''Infinity'')"
| "numberToString (Finite neg m e) =
     (if m = 0 then ''0''
      else signPrefix neg @ formatDigits (shortestDigits m e))"

section \<open>The calculator\<close>

text \<open>
  The state of the class \<^verbatim>\<open>Calculator\<close>: its three fields, and the text of the display element
  it writes to.  \<^verbatim>\<open>null\<close> is \<open>None\<close>.
\<close>

record calculator =
  currentInput :: string
  previousValue :: "jsnum option"
  operator :: "string option"
  textContent :: string

definition stringIncludes :: "string \<Rightarrow> char \<Rightarrow> bool" where
  "stringIncludes s c \<longleftrightarrow> c \<in> set s"

definition startsWith :: "string \<Rightarrow> string \<Rightarrow> bool" where
  "startsWith s p \<longleftrightarrow> take (length p) s = p"

text \<open>The Number value of an integer literal of the source, such as \<^verbatim>\<open>0\<close> and \<^verbatim>\<open>100\<close>.\<close>

definition numberLiteral :: "int \<Rightarrow> jsnum" where
  "numberLiteral n = roundFrac False n 1"

text \<open>A string or \<^verbatim>\<open>null\<close> used as a condition: \<^verbatim>\<open>null\<close> and the empty string count as false.\<close>

fun truthy :: "string option \<Rightarrow> bool" where
  "truthy None = False"
| "truthy (Some s) = (s \<noteq> [])"

text \<open>
  \<^verbatim>\<open>updateDisplay\<close> computes its local variable \<^verbatim>\<open>display\<close> from \<open>currentInput\<close> and writes it to
  the display element; \<open>formatDisplay\<close> is that computation.
\<close>

definition formatDisplay :: "string \<Rightarrow> string" where
  "formatDisplay display =
     (if \<not> stringIncludes display CHR ''.''
      then numberToString (parseInt display) else display)"

definition updateDisplay :: "calculator \<Rightarrow> calculator" where
  "updateDisplay c = c\<lparr>textContent := formatDisplay (currentInput c)\<rparr>"

definition constructor :: calculator where
  "constructor =
     updateDisplay \<lparr>currentInput = ''0'', previousValue = None, operator = None,
                    textContent = []\<rparr>"

definition inputDigit :: "string \<Rightarrow> calculator \<Rightarrow> calculator" where
  "inputDigit digit c =
     updateDisplay
       (if currentInput c = ''0'' then c\<lparr>currentInput := digit\<rparr>
        else c\<lparr>currentInput := currentInput c @ digit\<rparr>)"

definition inputDecimal :: "calculator \<Rightarrow> calculator" where
  "inputDecimal c =
     (if \<not> stringIncludes (currentInput c) CHR ''.''
      then updateDisplay (c\<lparr>currentInput := currentInput c @ ''.''\<rparr>)
      else c)"

definition toggleSign :: "calculator \<Rightarrow> calculator" where
  "toggleSign c =
     updateDisplay
       (if startsWith (currentInput c) ''-'' then c\<lparr>currentInput := drop 1 (currentInput c)\<rparr>
        else if currentInput c \<noteq> ''0'' then c\<lparr>currentInput := ''-'' @ currentInput c\<rparr>
        else c)"

definition clearEntry :: "calculator \<Rightarrow> calculator" where
  "clearEntry c = updateDisplay (c\<lparr>currentInput := ''0''\<rparr>)"

definition allClear :: "calculator \<Rightarrow> calculator" where
  "allClear c =
     updateDisplay (c\<lparr>currentInput := ''0'', previousValue := None, operator := None\<rparr>)"

text \<open>The \<^verbatim>\<open>switch\<close> of \<^verbatim>\<open>calculateResult\<close>, with its guard of the division.\<close>

definition applyOperator :: "string \<Rightarrow> jsnum \<Rightarrow> jsnum \<Rightarrow> jsnum" where
  "applyOperator op previous current =
     (if op = ''+'' then numAdd previous current
      else if op = ''-'' then numSub previous current
      else if op = ''*'' then numMul previous current
      else if op = ''/'' then (if isZero current then numberLiteral 0 else numDiv previous current)
      else current)"

definition calculateResult :: "calculator \<Rightarrow> calculator" where
  "calculateResult c =
     (case (operator c, previousValue c) of
        (Some op, Some previous) \<Rightarrow>
          let current = parseFloat (currentInput c);
              result = applyOperator op previous current
          in updateDisplay
               (c\<lparr>currentInput := numberToString result, previousValue := None, operator := None\<rparr>)
      | _ \<Rightarrow> c)"

definition setOperator :: "string \<Rightarrow> calculator \<Rightarrow> calculator" where
  "setOperator op c =
     (let c1 = (if truthy (operator c) \<and> previousValue c \<noteq> None then calculateResult c else c)
      in updateDisplay
           (c1\<lparr>operator := Some op, previousValue := Some (parseFloat (currentInput c1)),
               currentInput := ''0''\<rparr>))"

definition calculatePercentage :: "calculator \<Rightarrow> calculator" where
  "calculatePercentage c =
     (let v = numDiv (parseFloat (currentInput c)) (numberLiteral 100)
      in updateDisplay (c\<lparr>currentInput := numberToString v\<rparr>))"

subsection \<open>Sequences of actions\<close>

text \<open>
  One constructor for each method the user interface calls.  The interface passes a digit
  \<^verbatim>\<open>0\<close> to \<^verbatim>\<open>9\<close> to \<^verbatim>\<open>inputDigit\<close> and one of \<^verbatim>\<open>+\<close>, \<^verbatim>\<open>-\<close>, \<^verbatim>\<open>*\<close>, \<^verbatim>\<open>/\<close> to \<^verbatim>\<open>setOperator\<close>.
\<close>

datatype action =
    InputDigit string
  | InputDecimal
  | ToggleSign
  | ClearEntry
  | AllClear
  | SetOperator string
  | CalculateResult
  | CalculatePercentage

fun step :: "calculator \<Rightarrow> action \<Rightarrow> calculator" where
  "step c (InputDigit d) = inputDigit d c"
| "step c InputDecimal = inputDecimal c"
| "step c ToggleSign = toggleSign c"
| "step c ClearEntry = clearEntry c"
| "step c AllClear = allClear c"
| "step c (SetOperator op) = setOperator op c"
| "step c CalculateResult = calculateResult c"
| "step c CalculatePercentage = calculatePercentage c"

definition run :: "action list \<Rightarrow> calculator \<Rightarrow> calculator" where
  "run as c = foldl step c as"

definition digitKeys :: "string set" where
  "digitKeys = (\<lambda>c. [c]) ` set ''0123456789''"

definition operatorKeys :: "string set" where
  "operatorKeys = {''+'', ''-'', ''*'', ''/''}"

fun validAction :: "action \<Rightarrow> bool" where
  "validAction (InputDigit d) = (d \<in> digitKeys)"
| "validAction (SetOperator op) = (op \<in> operatorKeys)"
| "validAction a = True"

subsection \<open>Notions of the specification\<close>

text \<open>
  An operand is entered by digits, the decimal point and the sign toggle; \<open>entered as\<close> is the
  string that the entry actions \<open>as\<close> leave in \<open>currentInput\<close> when they start from \<^verbatim>\<open>0\<close>, as
  they do in the initial state and after \<open>setOperator\<close>.
\<close>

fun entryAction :: "action \<Rightarrow> bool" where
  "entryAction (InputDigit d) = (d \<in> digitKeys)"
| "entryAction InputDecimal = True"
| "entryAction ToggleSign = True"
| "entryAction a = False"

definition entered :: "action list \<Rightarrow> string" where
  "entered as = currentInput (run as constructor)"

text \<open>The regular language \<^verbatim>\<open>-?\d+(\.\d*)?\<close> of the data model.\<close>

definition operandGrammar :: "string \<Rightarrow> bool" where
  "operandGrammar s =
     (let t = (if s \<noteq> [] \<and> hd s = CHR ''-'' then tl s else s);
          ip = takeWhile isDigit t;
          r = dropWhile isDigit t
      in ip \<noteq> [] \<and> (r = [] \<or> (hd r = CHR ''.'' \<and> list_all isDigit (tl r))))"

text \<open>
  The strings \<open>numberToString\<close> writes in plain notation without a fraction: an optional
  \<^verbatim>\<open>-\<close> and digits.
\<close>

definition signedDigits :: "string \<Rightarrow> bool" where
  "signedDigits s =
     (let t = (if s \<noteq> [] \<and> hd s = CHR ''-'' then tl s else s)
      in t \<noteq> [] \<and> list_all isDigit t)"

text \<open>
  A string that is not empty and whose first character, or whose first character after a
  leading \<^verbatim>\<open>-\<close>, is not \<^verbatim>\<open>-\<close>: what \<open>toggleSign\<close> needs to keep \<open>currentInput\<close> from becoming
  empty.
\<close>

definition wellSigned :: "string \<Rightarrow> bool" where
  "wellSigned s \<longleftrightarrow> s \<noteq> [] \<and> (hd s = CHR ''-'' \<longrightarrow> tl s \<noteq> [] \<and> hd (tl s) \<noteq> CHR ''-'')"

text \<open>
  A string that \<open>numberToString\<close> gives for a finite Number in plain decimal notation: it is
  none of \<^verbatim>\<open>NaN\<close>, \<^verbatim>\<open>Infinity\<close> and \<^verbatim>\<open>-Infinity\<close>, and it has no exponent part.  Along the
  actions \<open>as\<close> from the state \<open>c\<close>, \<open>plainResults as c\<close> holds when each string that
  \<open>calculateResult\<close> or \<open>calculatePercentage\<close> leaves in \<open>currentInput\<close> is of this kind.
\<close>

definition plainNumberString :: "string \<Rightarrow> bool" where
  "plainNumberString s \<longleftrightarrow>
     s \<notin> {''NaN'', ''Infinity'', ''-Infinity''} \<and> CHR ''e'' \<notin> set s"

fun plainResults :: "action list \<Rightarrow> calculator \<Rightarrow> bool" where
  "plainResults [] c = True"
| "plainResults (a # as) c =
     ((a = CalculateResult \<or> a = CalculatePercentage \<longrightarrow>
         plainNumberString (currentInput (step c a)))
      \<and> plainResults as (step c a))"

text \<open>
  The binary operation as the specification words it (section 4.1, \<open>calculateResult\<close>): \<^verbatim>\<open>+\<close>,
  \<^verbatim>\<open>-\<close> and \<^verbatim>\<open>*\<close> are the floating-point operations, and \<^verbatim>\<open>/\<close> with a right operand equal to
  zero yields zero.  It is stated for the four operators only.
\<close>

definition directEvaluation :: "string \<Rightarrow> jsnum \<Rightarrow> jsnum \<Rightarrow> jsnum" where
  "directEvaluation op x y =
     (if op = ''/'' then (if isZero y then numberLiteral 0 else numDiv x y)
      else if op = ''*'' then numMul x y
      else if op = ''-'' then numSub x y
      else numAdd x y)"

text \<open>
  The same operation on integers, with the arithmetic of the integers instead of the one of
  the Numbers: \<open>exactQuotient\<close> marks the operands on which the quotient is an integer (or
  the divisor is zero).  \<open>intString z\<close> is the decimal numeral of \<open>z\<close>, \<open>digitActions n\<close> are the
  key presses that enter the numeral of \<open>n \<ge> 0\<close>, and \<open>intNumber z\<close> is the Number value of \<open>z\<close>.
\<close>

definition intEvaluation :: "string \<Rightarrow> int \<Rightarrow> int \<Rightarrow> int" where
  "intEvaluation op x y =
     (if op = ''/'' then (if y = 0 then 0 else x div y)
      else if op = ''*'' then x * y
      else if op = ''-'' then x - y
      else x + y)"

definition exactQuotient :: "string \<Rightarrow> int \<Rightarrow> int \<Rightarrow> bool" where
  "exactQuotient op x y \<longleftrightarrow> (op = ''/'' \<longrightarrow> y = 0 \<or> y dvd x)"

definition intString :: "int \<Rightarrow> string" where
  "intString z = signPrefix (z < 0) @ digitsOf \<bar>z\<bar>"

definition digitActions :: "int \<Rightarrow> action list" where
  "digitActions n = map (\<lambda>ch. InputDigit [ch]) (digitsOf n)"

definition intNumber :: "int \<Rightarrow> jsnum" where
  "intNumber z = roundFrac (z < 0) \<bar>z\<bar> 1"

text \<open>
  \<open>represents x z\<close>: the Number \<open>x\<close> is finite and its value \<open>(-1)\<^sup>s \<times> m \<times> 2\<^sup>e\<close> is the integer \<open>z\<close>.
\<close>

fun represents :: "jsnum \<Rightarrow> int \<Rightarrow> bool" where
  "represents (Finite s m e) z \<longleftrightarrow>
     0 \<le> m \<and> - 1074 \<le> e \<and> real_of_int (signedMant s m) * 2 powi e = real_of_int z"
| "represents x z \<longleftrightarrow> False"

section \<open>Rounding to a Number\<close>

text \<open>
  \<open>ilog\<close> is the floor of the logarithm of a positive fraction.  With it, \<open>roundFrac\<close> returns
  every value of the format unchanged (\<open>roundFrac_exact\<close>) and returns a value of the format
  for every fraction (\<open>roundFrac_wellformed\<close>).
\<close>


lemma numDigits_pos: "0 < numDigits b n"
  by (subst numDigits.simps) simp

lemma numDigits_bounds:
  "2 \<le> b \<Longrightarrow> 0 < n \<Longrightarrow> b ^ (numDigits b n - 1) \<le> n \<and> n < b ^ numDigits b n"
proof (induction b n rule: numDigits.induct)
  case (1 b n)
  show ?case
  proof (cases "n < b")
    case True
    then show ?thesis using 1(3) by (subst (1 2) numDigits.simps) simp
  next
    case False
    with 1(2) have pos: "0 < n div b"
      by (simp add: pos_imp_zdiv_pos_iff)
    from False 1(2) have ih: "b ^ (numDigits b (n div b) - 1) \<le> n div b \<and> n div b < b ^ numDigits b (n div b)"
      using 1(1) pos by simp
    have eq: "numDigits b n = Suc (numDigits b (n div b))"
      using False 1(2) by (subst numDigits.simps) simp
    have "0 < numDigits b (n div b)" by (rule numDigits_pos)
    then obtain k where k: "numDigits b (n div b) = Suc k"
      by (cases "numDigits b (n div b)") auto
    have b0: "0 < b" using 1(2) by simp
    from ih k have lo: "b ^ k \<le> n div b" and hi: "n div b < b ^ Suc k" by simp_all
    have dm: "n = b * (n div b) + n mod b" by simp
    have m0: "0 \<le> n mod b" and m1: "n mod b < b" using b0 by simp_all
    have "b * b ^ k \<le> b * (n div b)" using lo b0 by simp
    also have "\<dots> \<le> n" using dm m0 by linarith
    finally have l: "b ^ Suc k \<le> n" by simp
    have "n div b + 1 \<le> b ^ Suc k" using hi by simp
    then have "b * (n div b + 1) \<le> b * b ^ Suc k" using b0 by simp
    moreover have "n < b * (n div b) + b"
      using dm m1 by linarith
    then have "n < b * (n div b + 1)"
      by (simp add: distrib_left)
    ultimately have "n < b ^ Suc (Suc k)" by simp
    with l show ?thesis by (simp add: eq k)
  qed
qed



lemma frac_ge_powi:
  assumes "0 < d" "0 < b"
  shows "(if 0 \<le> e then d * b ^ nat e \<le> n else d \<le> n * b ^ nat (- e))
         = (real_of_int b powi e \<le> real_of_int n / real_of_int d)"
proof (cases "0 \<le> e")
  case True
  have "(real_of_int b ^ nat e \<le> real_of_int n / real_of_int d) = (real_of_int b ^ nat e * real_of_int d \<le> real_of_int n)"
    using assms by (simp add: pos_le_divide_eq)
  also have "\<dots> = (real_of_int (b ^ nat e * d) \<le> real_of_int n)" by simp
  also have "\<dots> = (b ^ nat e * d \<le> n)" by (simp only: of_int_le_iff)
  finally show ?thesis using True by (simp add: power_int_def mult.commute)
next
  case False
  have bp: "0 < real_of_int b ^ nat (- e)" using assms by simp
  have "(inverse (real_of_int b) ^ nat (- e) \<le> real_of_int n / real_of_int d) = (real_of_int d \<le> real_of_int n * real_of_int b ^ nat (- e))"
    using assms bp by (simp add: power_inverse field_simps)
  also have "\<dots> = (real_of_int d \<le> real_of_int (n * b ^ nat (- e)))" by simp
  also have "\<dots> = (d \<le> n * b ^ nat (- e))" by (simp only: of_int_le_iff)
  finally show ?thesis using False by (simp add: power_int_def)
qed

lemma numDigits_powi:
  assumes "2 \<le> b" "0 < n"
  shows "real_of_int b powi (int (numDigits b n) - 1) \<le> real_of_int n"
    and "real_of_int n < real_of_int b powi (int (numDigits b n))"
proof -
  from numDigits_bounds [OF assms] have lo: "b ^ (numDigits b n - 1) \<le> n" and hi: "n < b ^ numDigits b n"
    by simp_all
  have p: "0 < numDigits b n" by (rule numDigits_pos)
  then have "int (numDigits b n) - 1 = int (numDigits b n - 1)" by simp
  then have "real_of_int b powi (int (numDigits b n) - 1) = real_of_int (b ^ (numDigits b n - 1))"
    by (simp only: power_int_of_nat of_int_power)
  then show "real_of_int b powi (int (numDigits b n) - 1) \<le> real_of_int n"
    using lo by (simp only: of_int_le_iff)
  have "real_of_int b powi (int (numDigits b n)) = real_of_int (b ^ numDigits b n)"
    by (simp only: power_int_of_nat of_int_power)
  then show "real_of_int n < real_of_int b powi (int (numDigits b n))"
    using hi by (simp only: of_int_less_iff)
qed

lemma ilog_bounds:
  assumes b: "2 \<le> b" and n: "0 < n" and d: "0 < d"
  shows "real_of_int b powi (ilog b n d) \<le> real_of_int n / real_of_int d"
    and "real_of_int n / real_of_int d < real_of_int b powi (ilog b n d + 1)"
proof -
  define B where "B = real_of_int b"
  define a where "a = int (numDigits b n)"
  define c where "c = int (numDigits b d)"
  define v where "v = real_of_int n / real_of_int d"
  have B: "0 < B" "1 < B" using b by (simp_all add: B_def)
  have dn: "0 < real_of_int d" "0 < real_of_int n" using n d by simp_all
  have n1: "B powi (a - 1) \<le> real_of_int n" and n2: "real_of_int n < B powi a"
    using numDigits_powi [OF b n] by (simp_all add: B_def a_def)
  have d1: "B powi (c - 1) \<le> real_of_int d" and d2: "real_of_int d < B powi c"
    using numDigits_powi [OF b d] by (simp_all add: B_def c_def)
  have up: "v < B powi (a - c + 1)"
  proof -
    have "v < B powi a / real_of_int d" unfolding v_def using n2 dn by (simp add: divide_strict_right_mono)
    also have "\<dots> \<le> B powi a / B powi (c - 1)"
      using d1 B dn by (intro divide_left_mono) (auto intro!: mult_pos_pos)
    also have "\<dots> = B powi (a - c + 1)"
      using B by (simp add: power_int_diff power_int_add)
    finally show ?thesis .
  qed
  have low: "B powi (a - c - 1) < v"
  proof -
    have "B powi (a - c - 1) = B powi (a - 1) / B powi c"
      using B by (simp add: power_int_diff)
    also have "\<dots> < B powi (a - 1) / real_of_int d"
      using d2 B dn by (intro divide_strict_left_mono) (auto intro!: mult_pos_pos)
    also have "\<dots> \<le> v" unfolding v_def using n1 dn by (simp add: divide_right_mono)
    finally show ?thesis .
  qed
  have test: "(if 0 \<le> a - c then d * b ^ nat (a - c) \<le> n else d \<le> n * b ^ nat (- (a - c))) = (B powi (a - c) \<le> v)"
    unfolding B_def v_def using frac_ge_powi [of d b "a - c" n] b d by simp
  have il: "ilog b n d = (if B powi (a - c) \<le> v then a - c else a - c - 1)"
    unfolding ilog_def Let_def a_def [symmetric] c_def [symmetric] test by simp
  show "real_of_int b powi (ilog b n d) \<le> real_of_int n / real_of_int d"
    using low unfolding il B_def [symmetric] v_def [symmetric] by auto
  show "real_of_int n / real_of_int d < real_of_int b powi (ilog b n d + 1)"
    using up unfolding il B_def [symmetric] v_def [symmetric] by auto
qed

lemma powi_floor_unique:
  fixes B :: real
  assumes "1 < B" "B powi L \<le> v" "v < B powi (L + 1)" "B powi K \<le> v" "v < B powi (K + 1)"
  shows "L = K"
proof (rule ccontr)
  assume ne: "L \<noteq> K"
  have mono: "\<And>i j. i \<le> j \<Longrightarrow> B powi i \<le> B powi j"
    using assms(1) by (simp add: power_int_increasing)
  show False
  proof (cases "L < K")
    case True
    then have "B powi (L + 1) \<le> B powi K" by (intro mono) simp
    with assms show False by linarith
  next
    case False
    with ne have "K + 1 \<le> L" by simp
    then have "B powi (K + 1) \<le> B powi L" by (intro mono)
    with assms show False by linarith
  qed
qed

lemma scale_pos: "0 < b \<Longrightarrow> 0 < n \<Longrightarrow> 0 < scaleNum b e n" "0 < b \<Longrightarrow> 0 < d \<Longrightarrow> 0 < scaleDen b e d"
  by (simp_all add: scaleNum_def scaleDen_def)

lemma scale_ratio:
  "0 < d \<Longrightarrow> 0 < b \<Longrightarrow> real_of_int (scaleNum b e n) / real_of_int (scaleDen b e d)
     = real_of_int n / real_of_int d / real_of_int b powi e"
  by (simp add: scaleNum_def scaleDen_def power_int_def field_simps)

lemma roundFrac_unfold:
  "n \<noteq> 0 \<Longrightarrow> roundFrac neg n d =
     packFinite neg (roundHalfEven (scaleNum 2 (max (ilog 2 n d - 52) (- 1074)) n)
        (scaleDen 2 (max (ilog 2 n d - 52) (- 1074)) d)) (max (ilog 2 n d - 52) (- 1074))"
  by (simp add: roundFrac_def Let_def)

lemma roundHalfEven_exact: "0 < D \<Longrightarrow> roundHalfEven (m * D) D = m"
  by (simp add: roundHalfEven_def)

lemma roundHalfEven_range:
  "roundHalfEven N D = N div D \<or> roundHalfEven N D = N div D + 1"
  by (simp add: roundHalfEven_def Let_def)

lemma div_lt_of_ratio:
  assumes "real_of_int N / real_of_int D < real_of_int k"
  shows "N div D < k"
proof -
  have "N div D = \<lfloor>real_of_int N / real_of_int D\<rfloor>" by (simp add: floor_divide_of_int_eq)
  then show ?thesis using assms by (simp add: floor_less_iff)
qed

lemma div_ge_of_ratio:
  assumes "real_of_int k \<le> real_of_int N / real_of_int D"
  shows "k \<le> N div D"
proof -
  have "N div D = \<lfloor>real_of_int N / real_of_int D\<rfloor>" by (simp add: floor_divide_of_int_eq)
  then show ?thesis using assms by (simp add: le_floor_iff)
qed

lemma roundFrac_exact:
  assumes m: "0 < m" and c: "canonical m e" and n: "0 < n" and d: "0 < d"
    and v: "real_of_int n / real_of_int d = real_of_int m * 2 powi e"
  shows "roundFrac neg n d = Finite neg m e"
proof -
  define L where "L = ilog 2 n d"
  define v' where "v' = real_of_int n / real_of_int d"
  have L1: "2 powi L \<le> v'" and L2: "v' < 2 powi (L + 1)"
    using ilog_bounds [of 2 n d] n d by (simp_all add: L_def v'_def)
  have vm: "v' = real_of_int m * 2 powi e" using v by (simp add: v'_def)
  have p: "(0::real) < 2 powi e" by simp
  have e: "max (L - 52) (- 1074) = e"
  proof (cases "2 ^ 52 \<le> m")
    case True
    with c have r: "m < 2 ^ 53" "- 1074 \<le> e" by (auto simp: canonical_def)
    have "real_of_int ((2::int) ^ 52) \<le> real_of_int m" using True by (simp only: of_int_le_iff)
    then have "2 powi 52 * 2 powi e \<le> v'" unfolding vm using p by (intro mult_right_mono) simp_all
    then have a: "2 powi (e + 52) \<le> v'" by (simp add: power_int_add mult.commute)
    have "real_of_int m < real_of_int ((2::int) ^ 53)" using r(1) by (simp only: of_int_less_iff)
    then have "v' < 2 powi 53 * 2 powi e" unfolding vm using p by (intro mult_strict_right_mono) simp_all
    then have b: "v' < 2 powi (e + 52 + 1)" by (simp add: power_int_add mult.commute)
    have "L = e + 52" using powi_floor_unique [OF _ L1 L2 a b] by simp
    then show ?thesis using r by simp
  next
    case False
    with c have r: "m < 2 ^ 52" "e = - 1074" by (auto simp: canonical_def)
    have "real_of_int m < real_of_int ((2::int) ^ 52)" using r(1) by (simp only: of_int_less_iff)
    then have "v' < 2 powi 52 * 2 powi e" unfolding vm using p by (intro mult_strict_right_mono) simp_all
    then have b: "v' < 2 powi (e + 52)" by (simp add: power_int_add mult.commute)
    have "L < e + 52"
    proof (rule ccontr)
      assume "\<not> L < e + 52"
      then have "(2::real) powi (e + 52) \<le> 2 powi L" by (intro power_int_increasing) simp_all
      with L1 b show False by linarith
    qed
    then show ?thesis using r by simp
  qed
  have D: "0 < scaleDen 2 e d" using d by (simp add: scale_pos)
  have "real_of_int (scaleNum 2 e n) / real_of_int (scaleDen 2 e d) = real_of_int m"
    using scale_ratio [OF d, of 2 e n] v by simp
  then have "real_of_int (scaleNum 2 e n) = real_of_int (m * scaleDen 2 e d)"
    using D by (simp add: field_simps)
  then have eq: "scaleNum 2 e n = m * scaleDen 2 e d" by (simp only: of_int_eq_iff)
  have m53: "m \<noteq> 2 ^ 53" "e \<le> 971" using c by (auto simp: canonical_def)
  have "roundFrac neg n d = packFinite neg (roundHalfEven (m * scaleDen 2 e d) (scaleDen 2 e d)) e"
    using n by (simp add: roundFrac_unfold L_def [symmetric] e eq)
  also have "\<dots> = packFinite neg m e" using D by (simp only: roundHalfEven_exact)
  also have "\<dots> = Finite neg m e" using m53 by (simp add: packFinite_def)
  finally show ?thesis .
qed

lemma roundFrac_wellformed:
  assumes n: "0 \<le> n" and d: "0 < d"
  shows "wellformed (roundFrac neg n d)"
proof (cases "n = 0")
  case True
  then show ?thesis by (simp add: roundFrac_def canonical_def)
next
  case False
  with n have n0: "0 < n" by simp
  define L where "L = ilog 2 n d"
  define e where "e = max (L - 52) (- 1074)"
  define N where "N = scaleNum 2 e n"
  define D where "D = scaleDen 2 e d"
  define q where "q = N div D"
  define mm where "mm = roundHalfEven N D"
  define v where "v = real_of_int n / real_of_int d"
  have L1: "2 powi L \<le> v" and L2: "v < 2 powi (L + 1)"
    using ilog_bounds [of 2 n d] n0 d by (simp_all add: L_def v_def)
  have Dp: "0 < D" and Np: "0 < N" using n0 d by (simp_all add: D_def N_def scale_pos)
  have ratio: "real_of_int N / real_of_int D = v / 2 powi e"
    unfolding N_def D_def v_def using scale_ratio [OF d, of 2 e n] by simp
  have e1: "- 1074 \<le> e" and e2: "L - 52 \<le> e" by (simp_all add: e_def)
  have p: "(0::real) < 2 powi e" by simp
  have "(2::real) powi (L + 1) \<le> 2 powi (e + 53)" using e2 by (intro power_int_increasing) simp_all
  with L2 have "v < 2 powi (e + 53)" by linarith
  then have "v < 2 powi 53 * 2 powi e" by (simp add: power_int_add mult.commute)
  then have "v / 2 powi e < 2 powi 53" using p by (simp add: field_simps)
  then have "real_of_int N / real_of_int D < real_of_int (2 ^ 53)" by (simp add: ratio)
  then have qub: "q < 2 ^ 53" unfolding q_def by (rule div_lt_of_ratio)
  have q0: "0 \<le> q" unfolding q_def using Np Dp by (simp add: pos_imp_zdiv_nonneg_iff)
  have qlb: "2 ^ 52 \<le> q" if "- 1074 < e"
  proof -
    from that have "e = L - 52" by (simp add: e_def)
    then have "(2::real) powi (e + 52) = 2 powi L" by simp
    with L1 have "2 powi (e + 52) \<le> v" by simp
    then have "2 powi 52 * 2 powi e \<le> v" by (simp add: power_int_add mult.commute)
    then have "2 powi 52 \<le> v / 2 powi e" using p by (simp add: field_simps)
    then have "real_of_int (2 ^ 52) \<le> real_of_int N / real_of_int D" by (simp add: ratio)
    then show ?thesis unfolding q_def by (rule div_ge_of_ratio)
  qed
  have mq: "q \<le> mm" "mm \<le> q + 1"
    using roundHalfEven_range [of N D] by (auto simp: mm_def q_def)
  have res: "roundFrac neg n d = packFinite neg mm e"
    using False by (simp add: roundFrac_unfold L_def e_def N_def D_def mm_def)
  have c1: "canonical (2 ^ 52) (e + 1)" if "\<not> 971 < e + 1"
    using that e1 by (simp add: canonical_def)
  have c2: "canonical mm e" if "mm \<noteq> 2 ^ 53" "\<not> 971 < e"
  proof (cases "- 1074 < e")
    case True
    from qlb [OF True] mq qub that e1 show ?thesis by (simp add: canonical_def)
  next
    case False
    with e1 have "e = - 1074" by simp
    with mq qub q0 that show ?thesis by (auto simp: canonical_def)
  qed
  show ?thesis unfolding res packFinite_def using c1 c2 by simp
qed

lemma roundFrac_sign:
  "roundFrac False n d = Finite False m e \<Longrightarrow> roundFrac neg n d = Finite neg m e"
  by (auto simp: roundFrac_def packFinite_def Let_def split: if_splits)

section \<open>Decimal digits and the shortest digit string\<close>

text \<open>
  \<open>digitsOf\<close> and \<open>digitsVal\<close> are inverse on non-negative integers, and the pair that
  \<open>shortestDigits\<close> finds for a Number rounds to that Number.
\<close>

lemma digit_cases:
  assumes "0 \<le> d" "d < 10"
  shows "d = 0 \<or> d = 1 \<or> d = 2 \<or> d = 3 \<or> d = 4 \<or> d = 5 \<or> d = 6 \<or> d = 7 \<or> d = 8 \<or> d = (9::int)"
  using assms by arith

lemma digitChar_isDigit: "0 \<le> d \<Longrightarrow> d < 10 \<Longrightarrow> isDigit (digitChar d)"
  using digit_cases [of d] by (auto simp: isDigit_def digitChar_def)

lemma digitVal_digitChar: "0 \<le> d \<Longrightarrow> d < 10 \<Longrightarrow> digitVal (digitChar d) = d"
  using digit_cases [of d] by (auto simp: digitVal_def digitChar_def)

lemma digitVal_nonneg: "0 \<le> digitVal c"
  by (simp add: digitVal_def)

lemma digitsVal_snoc: "digitsVal (xs @ [c]) = 10 * digitsVal xs + digitVal c"
  by (simp add: digitsVal_def)

lemma digitsVal_Nil [simp]: "digitsVal [] = 0"
  by (simp add: digitsVal_def)

lemma digitsVal_append:
  "digitsVal (xs @ ys) = digitsVal xs * 10 ^ length ys + digitsVal ys"
proof (induction ys rule: rev_induct)
  case Nil
  then show ?case by simp
next
  case (snoc y ys)
  have "digitsVal (xs @ ys @ [y]) = 10 * digitsVal (xs @ ys) + digitVal y"
    using digitsVal_snoc [of "xs @ ys" y] by simp
  then show ?case by (simp add: snoc digitsVal_snoc algebra_simps)
qed

lemma digitsVal_nonneg: "0 \<le> digitsVal xs"
  by (induction xs rule: rev_induct) (simp_all add: digitsVal_snoc digitVal_nonneg)

lemma digitVal_zero [simp]: "digitVal CHR ''0'' = 0"
  by (simp add: digitVal_def)

lemma digitsVal_zeros [simp]: "digitsVal (replicate k CHR ''0'') = 0"
proof (induction k)
  case 0
  then show ?case by simp
next
  case (Suc k)
  have "replicate (Suc k) CHR ''0'' = replicate k CHR ''0'' @ [CHR ''0'']"
    by (simp add: replicate_append_same)
  then show ?case using Suc by (simp only: digitsVal_snoc) simp
qed

lemma digitsOf_nonempty [simp]: "digitsOf n \<noteq> []"
  by (subst digitsOf.simps) simp

lemma digitsOf_digits: "0 \<le> n \<Longrightarrow> c \<in> set (digitsOf n) \<Longrightarrow> isDigit c"
proof (induction n rule: digitsOf.induct)
  case (1 n)
  show ?case
  proof (cases "n < 10")
    case True
    with 1(2,3) show ?thesis
      by (subst (asm) digitsOf.simps) (simp add: digitChar_isDigit)
  next
    case False
    then have "0 \<le> n div 10" using 1(2) by simp
    moreover have "isDigit (digitChar (n mod 10))" by (simp add: digitChar_isDigit)
    ultimately show ?thesis using 1(1) [OF False] 1(3) False
      by (subst (asm) digitsOf.simps) auto
  qed
qed

lemma digitsVal_digitsOf: "0 \<le> n \<Longrightarrow> digitsVal (digitsOf n) = n"
proof (induction n rule: digitsOf.induct)
  case (1 n)
  show ?case
  proof (cases "n < 10")
    case True
    with 1(2) show ?thesis
      by (subst digitsOf.simps) (simp add: digitsVal_def digitVal_digitChar)
  next
    case False
    then have "0 \<le> n div 10" using 1(2) by simp
    with 1(1) [OF False] have "digitsVal (digitsOf (n div 10)) = n div 10" by simp
    then show ?thesis using False
      by (subst digitsOf.simps) (simp add: digitsVal_snoc digitVal_digitChar)
  qed
qed

lemma strip10_value:
  "strip10 s e = (s', e') \<Longrightarrow>
     real_of_int s' * 10 powi e' = real_of_int s * 10 powi e \<and> (0 < s \<longrightarrow> 0 < s')"
proof (induction s e rule: strip10.induct)
  case (1 s e)
  show ?case
  proof (cases "s \<noteq> 0 \<and> s mod 10 = 0")
    case True
    then have st: "strip10 (s div 10) (e + 1) = (s', e')"
      using 1(2) by (subst (asm) strip10.simps) simp
    from True have s: "s = 10 * (s div 10)" by presburger
    have "real_of_int (s div 10) * 10 powi (e + 1) = real_of_int (10 * (s div 10)) * 10 powi e"
      by (simp add: power_int_add)
    then have "real_of_int (s div 10) * 10 powi (e + 1) = real_of_int s * 10 powi e"
      using s by simp
    moreover have "0 < s \<longrightarrow> 0 < s div 10" using s by presburger
    ultimately show ?thesis using 1(1) [OF True st] by simp
  next
    case False
    then have "strip10 s e = (s, e)" by (subst strip10.simps) auto
    with 1(2) show ?thesis by simp
  qed
qed

lemma mkFrac_value:
  "mkFrac s e = (n, d) \<Longrightarrow>
     0 < d \<and> real_of_int n / real_of_int d = real_of_int s * 10 powi e \<and> (0 < s \<longrightarrow> 0 < n)"
  by (auto simp: mkFrac_def power_int_def field_simps split: if_splits)

lemma roundDec_exact:
  assumes "0 < m" "canonical m e" "0 < s"
    and "real_of_int s * 10 powi t = real_of_int m * 2 powi e"
  shows "roundDec neg s t = Finite neg m e"
proof -
  obtain n d where nd: "mkFrac s t = (n, d)" by (cases "mkFrac s t")
  from mkFrac_value [OF nd] assms(3,4)
  have "0 < d" "0 < n" "real_of_int n / real_of_int d = real_of_int m * 2 powi e" by simp_all
  then show ?thesis using roundFrac_exact [OF assms(1,2)] by (simp add: roundDec_def nd)
qed

lemma pick_roundsTo: "pick x n d e = Some c \<Longrightarrow> roundsTo x c"
  by (auto simp: pick_def Let_def split: if_splits)

lemma shortest_roundsTo:
  "roundsTo x exact \<Longrightarrow> roundsTo x (shortest fuel x n d e exact)"
  by (induction fuel arbitrary: e) (auto simp: pick_roundsTo split: option.splits)

lemma exact_value:
  "real_of_int (if e < 0 then m * 5 ^ nat (- e) else m * 2 ^ nat e) * 10 powi (min e 0)
     = real_of_int m * 2 powi e"
proof (cases "e < 0")
  case True
  have "(10::real) ^ nat (- e) = 2 ^ nat (- e) * 5 ^ nat (- e)"
    by (simp add: power_mult_distrib [symmetric])
  then show ?thesis using True by (simp add: power_int_def field_simps)
next
  case False
  then show ?thesis by (simp add: power_int_def)
qed

lemma shortestDigits_roundsTo:
  assumes "0 < m" "canonical m e"
  shows "roundsTo (Finite False m e) (shortestDigits m e)"
proof -
  define t where "t = (if e < 0 then m * 5 ^ nat (- e) else m * 2 ^ nat e)"
  obtain s' e' where st: "strip10 t (min e 0) = (s', e')" by (cases "strip10 t (min e 0)")
  have tp: "0 < t" using assms(1) by (simp add: t_def)
  from strip10_value [OF st] tp exact_value [of e m]
  have "real_of_int s' * 10 powi e' = real_of_int m * 2 powi e" "0 < s'"
    by (simp_all add: t_def)
  then have "roundsTo (Finite False m e) (strip10 t (min e 0))"
    using roundDec_exact [OF assms, of s' e' False] by (simp add: roundsTo_def st)
  then show ?thesis
    unfolding shortestDigits_def Let_def t_def by (auto intro: shortest_roundsTo)
qed

lemma roundsTo_pos:
  assumes "roundsTo (Finite False m e) (s, t)" "0 < m"
  shows "s \<noteq> 0"
proof
  assume "s = 0"
  then have "roundDec False s t = Finite False 0 (- 1074)"
    by (simp add: roundDec_def mkFrac_def roundFrac_def)
  with assms show False by (simp add: roundsTo_def)
qed

section \<open>\<open>parseFloat\<close> on an optional sign, digits, a fraction and an exponent\<close>

lemma isDigit_simps [simp]:
  "\<not> isDigit CHR ''-''" "\<not> isDigit CHR ''+''" "\<not> isDigit CHR ''.''" "\<not> isDigit CHR ''e''"
  "\<not> isDigit CHR ''E''" "\<not> isDigit CHR ''I''" "\<not> isDigit CHR ''N''" "isDigit CHR ''0''"
  by (simp_all add: isDigit_def)

lemma isDigit_not_space: "isDigit c \<Longrightarrow> \<not> isWhiteSpace c"
  by (auto simp: isDigit_def isWhiteSpace_def)

lemma minus_not_space [simp]: "\<not> isWhiteSpace CHR ''-''"
  by (simp add: isWhiteSpace_def)

lemma isDigit_neq:
  "isDigit c \<Longrightarrow> c \<noteq> CHR ''-'' \<and> c \<noteq> CHR ''+'' \<and> c \<noteq> CHR ''.'' \<and> c \<noteq> CHR ''e'' \<and> c \<noteq> CHR ''E'' \<and> c \<noteq> CHR ''I''"
  by (auto simp: isDigit_def)

lemma exponentPart_Nil [simp]: "exponentPart [] = 0"
  by (simp add: exponentPart_def)

lemma takeWhile_digits_all: "\<forall>c\<in>set xs. isDigit c \<Longrightarrow> takeWhile isDigit xs = xs"
  by (simp add: takeWhile_eq_all_conv)

lemma exponentPart_digits:
  assumes "0 \<le> a"
  shows "exponentPart (''e+'' @ digitsOf a) = a" "exponentPart (''e-'' @ digitsOf a) = - a"
proof -
  have d: "\<forall>c\<in>set (digitsOf a). isDigit c" using digitsOf_digits [OF assms] by auto
  have v: "digitsVal (digitsOf a) = a" using assms by (simp add: digitsVal_digitsOf)
  show "exponentPart (''e+'' @ digitsOf a) = a" "exponentPart (''e-'' @ digitsOf a) = - a"
    by (simp_all add: exponentPart_def Let_def takeWhile_digits_all [OF d] v)
qed

lemma exponentPart_format:
  "exponentPart (''e'' @ (if 0 \<le> a then ''+'' else ''-'') @ digitsOf \<bar>a\<bar>) = a"
proof (cases "0 \<le> a")
  case True
  then show ?thesis using exponentPart_digits(1) [of a] by simp
next
  case False
  then show ?thesis using exponentPart_digits(2) [of "- a"] by simp
qed

lemma parseFloat_signed:
  assumes "u \<noteq> []" "isDigit (hd u)"
  shows "parseFloat (signPrefix neg @ u) =
    roundDec neg
      (digitsVal (takeWhile isDigit u @
         (if dropWhile isDigit u \<noteq> [] \<and> hd (dropWhile isDigit u) = CHR ''.''
          then takeWhile isDigit (tl (dropWhile isDigit u)) else [])))
      (exponentPart (if dropWhile isDigit u \<noteq> [] \<and> hd (dropWhile isDigit u) = CHR ''.''
          then dropWhile isDigit (tl (dropWhile isDigit u)) else dropWhile isDigit u)
        - int (length (if dropWhile isDigit u \<noteq> [] \<and> hd (dropWhile isDigit u) = CHR ''.''
          then takeWhile isDigit (tl (dropWhile isDigit u)) else [])))"
proof -
  obtain c cs where u: "u = c # cs" using assms(1) by (cases u) auto
  with assms(2) have c: "isDigit c" by simp
  show ?thesis
    using c isDigit_neq [OF c] isDigit_not_space [OF c]
    by (cases neg) (simp_all add: parseFloat_def signPrefix_def Let_def u)
qed

lemma takeWhile_digits_tail:
  "\<forall>c\<in>set xs. isDigit c \<Longrightarrow> tail = [] \<or> \<not> isDigit (hd tail) \<Longrightarrow>
     takeWhile isDigit (xs @ tail) = xs"
  by (cases tail) (simp_all add: takeWhile_digits_all takeWhile_tail)

lemma dropWhile_digits_tail:
  "\<forall>c\<in>set xs. isDigit c \<Longrightarrow> tail = [] \<or> \<not> isDigit (hd tail) \<Longrightarrow>
     dropWhile isDigit (xs @ tail) = tail"
  by (cases tail) (simp_all add: dropWhile_append3)

lemma parseFloat_nodot:
  assumes ip: "ip \<noteq> []" "\<forall>c\<in>set ip. isDigit c"
    and tail: "tail = [] \<or> (\<not> isDigit (hd tail) \<and> hd tail \<noteq> CHR ''.'')"
  shows "parseFloat (signPrefix neg @ ip @ tail) = roundDec neg (digitsVal ip) (exponentPart tail)"
proof -
  have h: "ip @ tail \<noteq> []" "isDigit (hd (ip @ tail))" using ip by (cases ip; simp)+
  have t: "tail = [] \<or> \<not> isDigit (hd tail)" using tail by auto
  have nodot: "\<not> (tail \<noteq> [] \<and> hd tail = CHR ''.'')" using tail by auto
  show ?thesis
    unfolding parseFloat_signed [OF h] takeWhile_digits_tail [OF ip(2) t] dropWhile_digits_tail [OF ip(2) t]
    using nodot by auto
qed

lemma parseFloat_dot:
  assumes ip: "ip \<noteq> []" "\<forall>c\<in>set ip. isDigit c" and fp: "\<forall>c\<in>set fp. isDigit c"
    and tail: "tail = [] \<or> \<not> isDigit (hd tail)"
  shows "parseFloat (signPrefix neg @ ip @ ''.'' @ fp @ tail)
         = roundDec neg (digitsVal (ip @ fp)) (exponentPart tail - int (length fp))"
proof -
  have h: "ip @ ''.'' @ fp @ tail \<noteq> []" "isDigit (hd (ip @ ''.'' @ fp @ tail))"
    using ip by (cases ip; simp)+
  have t: "''.'' @ fp @ tail = [] \<or> \<not> isDigit (hd (''.'' @ fp @ tail))" by simp
  have tl: "tl (''.'' @ fp @ tail) = fp @ tail" by simp
  show ?thesis
    unfolding parseFloat_signed [OF h] takeWhile_digits_tail [OF ip(2) t]
      dropWhile_digits_tail [OF ip(2) t] tl
      takeWhile_digits_tail [OF fp tail] dropWhile_digits_tail [OF fp tail]
    by simp
qed

section \<open>Reading back the string of a Number\<close>

text \<open>
  \<open>parseFloat\<close> reads every string written by \<open>numberToString\<close> back to the Number it was
  written from; only the sign of a zero is lost, since both zeros are written \<^verbatim>\<open>0\<close>.
\<close>

lemma roundDec_shift:
  "0 \<le> e \<Longrightarrow> roundDec neg (s * 10 ^ nat e) 0 = roundDec neg s e"
  by (simp add: roundDec_def mkFrac_def)

lemma zeros_digits: "\<forall>c\<in>set (replicate j CHR ''0''). isDigit c"
  by simp

lemma parseFloat_formatDigits:
  assumes s: "0 < s"
  shows "parseFloat (signPrefix neg @ formatDigits (s, e)) = roundDec neg s e"
proof -
  define ds where "ds = digitsOf s"
  define k where "k = int (length ds)"
  define n where "n = e + k"
  have ne: "ds \<noteq> []" by (simp add: ds_def)
  have dg: "\<forall>c\<in>set ds. isDigit c" using digitsOf_digits [of s] s by (auto simp: ds_def)
  have dv: "digitsVal ds = s" using s by (simp add: ds_def digitsVal_digitsOf)
  have k1: "1 \<le> k" using ne by (cases ds) (simp_all add: k_def)
  have fd: "formatDigits (s, e) =
     (if - 5 \<le> n \<and> n \<le> 21 then
             (if k \<le> n then ds @ replicate (nat (n - k)) CHR ''0''
              else if 0 < n then take (nat n) ds @ ''.'' @ drop (nat n) ds
              else ''0.'' @ replicate (nat (- n)) CHR ''0'' @ ds)
           else
             (if k = 1 then ds else take 1 ds @ ''.'' @ drop 1 ds)
             @ ''e'' @ (if 0 \<le> n - 1 then ''+'' else ''-'') @ digitsOf \<bar>n - 1\<bar>)"
    by (simp add: formatDigits_def Let_def ds_def k_def n_def)
  define tail where "tail = ''e'' @ (if 0 \<le> n - 1 then ''+'' else ''-'') @ digitsOf \<bar>n - 1\<bar>"
  have tail_e: "exponentPart tail = n - 1" unfolding tail_def by (rule exponentPart_format)
  have tail_hd: "tail = [] \<or> (\<not> isDigit (hd tail) \<and> hd tail \<noteq> CHR ''.'')"
    by (simp add: tail_def)
  have tail_hd': "tail = [] \<or> \<not> isDigit (hd tail)" by (simp add: tail_def)
  consider (plain_int) "- 5 \<le> n" "n \<le> 21" "k \<le> n"
    | (plain_frac) "- 5 \<le> n" "n \<le> 21" "\<not> k \<le> n" "0 < n"
    | (plain_small) "- 5 \<le> n" "n \<le> 21" "\<not> k \<le> n" "\<not> 0 < n"
    | (exp_one) "\<not> (- 5 \<le> n \<and> n \<le> 21)" "k = 1"
    | (exp_many) "\<not> (- 5 \<le> n \<and> n \<le> 21)" "k \<noteq> 1"
    by blast
  then show ?thesis
  proof cases
    case plain_int
    then have f: "formatDigits (s, e) = (ds @ replicate (nat (n - k)) CHR ''0'') @ []"
      by (simp add: fd)
    have e0: "0 \<le> e" "nat (n - k) = nat e" using plain_int by (simp_all add: n_def)
    have "parseFloat (signPrefix neg @ (ds @ replicate (nat (n - k)) CHR ''0'') @ [])
        = roundDec neg (digitsVal (ds @ replicate (nat (n - k)) CHR ''0'')) (exponentPart [])"
      using ne dg by (intro parseFloat_nodot) auto
    also have "\<dots> = roundDec neg (s * 10 ^ nat e) 0"
      by (simp add: digitsVal_append dv e0)
    also have "\<dots> = roundDec neg s e" using e0 by (simp add: roundDec_shift)
    finally show ?thesis by (simp only: f)
  next
    case plain_frac
    then have f: "formatDigits (s, e) = take (nat n) ds @ ''.'' @ drop (nat n) ds @ []"
      by (simp add: fd)
    have a: "take (nat n) ds \<noteq> []" using plain_frac ne by simp
    have b: "\<forall>c\<in>set (take (nat n) ds). isDigit c" using dg by (auto dest: in_set_takeD)
    have c: "\<forall>c\<in>set (drop (nat n) ds). isDigit c" using dg by (auto dest: in_set_dropD)
    have len: "int (length (drop (nat n) ds)) = k - n" using plain_frac by (simp add: k_def)
    have "parseFloat (signPrefix neg @ take (nat n) ds @ ''.'' @ drop (nat n) ds @ [])
        = roundDec neg (digitsVal (take (nat n) ds @ drop (nat n) ds))
            (exponentPart [] - int (length (drop (nat n) ds)))"
      using a b c by (intro parseFloat_dot) auto
    also have "\<dots> = roundDec neg s e"
    proof -
      have "exponentPart [] - int (length (drop (nat n) ds)) = e"
        by (simp only: len exponentPart_Nil) (simp add: n_def)
      then show ?thesis by (simp only: append_take_drop_id dv)
    qed
    finally show ?thesis by (simp only: f)
  next
    case plain_small
    then have f: "formatDigits (s, e) = ''0'' @ ''.'' @ (replicate (nat (- n)) CHR ''0'' @ ds) @ []"
      by (simp add: fd)
    have c: "\<forall>c\<in>set (replicate (nat (- n)) CHR ''0'' @ ds). isDigit c" using dg by auto
    have z: "''0'' @ replicate (nat (- n)) CHR ''0'' = replicate (Suc (nat (- n))) CHR ''0''" by simp
    have v: "digitsVal (''0'' @ replicate (nat (- n)) CHR ''0'' @ ds) = s"
      using digitsVal_append [of "''0'' @ replicate (nat (- n)) CHR ''0''" ds]
      by (simp only: z append_assoc [symmetric] digitsVal_zeros dv)
    have len: "int (length (replicate (nat (- n)) CHR ''0'' @ ds)) = k - n"
      using plain_small by (simp add: k_def)
    have "parseFloat (signPrefix neg @ ''0'' @ ''.'' @ (replicate (nat (- n)) CHR ''0'' @ ds) @ [])
        = roundDec neg (digitsVal (''0'' @ (replicate (nat (- n)) CHR ''0'' @ ds)))
            (exponentPart [] - int (length (replicate (nat (- n)) CHR ''0'' @ ds)))"
      using c by (intro parseFloat_dot) auto
    also have "\<dots> = roundDec neg s e"
    proof -
      have "exponentPart [] - int (length (replicate (nat (- n)) CHR ''0'' @ ds)) = e"
        by (simp only: len exponentPart_Nil) (simp add: n_def)
      then show ?thesis by (simp only: v)
    qed
    finally show ?thesis by (simp only: f)
  next
    case exp_one
    then have f: "formatDigits (s, e) = ds @ tail"
      unfolding fd tail_def by (simp only: if_False if_True simp_thms)
    have "parseFloat (signPrefix neg @ ds @ tail) = roundDec neg (digitsVal ds) (exponentPart tail)"
      using ne dg tail_hd by (intro parseFloat_nodot) auto
    also have "\<dots> = roundDec neg s e" using exp_one by (simp only: dv tail_e) (simp add: n_def)
    finally show ?thesis by (simp only: f)
  next
    case exp_many
    then have f: "formatDigits (s, e) = take 1 ds @ ''.'' @ drop 1 ds @ tail"
      unfolding fd tail_def by (simp only: if_False if_True append_assoc simp_thms)
    have a: "take 1 ds \<noteq> []" using ne by simp
    have b: "\<forall>c\<in>set (take 1 ds). isDigit c" using dg by (auto dest: in_set_takeD)
    have c: "\<forall>c\<in>set (drop 1 ds). isDigit c" using dg by (auto dest: in_set_dropD)
    have len: "int (length (drop 1 ds)) = k - 1" using k1 by (simp add: k_def)
    have "parseFloat (signPrefix neg @ take 1 ds @ ''.'' @ drop 1 ds @ tail)
        = roundDec neg (digitsVal (take 1 ds @ drop 1 ds)) (exponentPart tail - int (length (drop 1 ds)))"
      using a b c tail_hd' by (intro parseFloat_dot) auto
    also have "\<dots> = roundDec neg s e"
    proof -
      have "exponentPart tail - int (length (drop 1 ds)) = e"
        by (simp only: len tail_e) (simp add: n_def)
      then show ?thesis by (simp only: append_take_drop_id dv)
    qed
    finally show ?thesis by (simp only: f)
  qed
qed

lemma strip10_nonneg: "strip10 s e = (s', e') \<Longrightarrow> 0 \<le> s \<Longrightarrow> 0 \<le> s'"
proof (induction s e rule: strip10.induct)
  case (1 s e)
  show ?case
  proof (cases "s \<noteq> 0 \<and> s mod 10 = 0")
    case True
    then have st: "strip10 (s div 10) (e + 1) = (s', e')"
      using 1(2) by (subst (asm) strip10.simps) simp
    have "0 \<le> s div 10" using 1(3) by simp
    then show ?thesis using 1(1) [OF True st] by simp
  next
    case False
    then have "strip10 s e = (s, e)" by (subst strip10.simps) auto
    with 1(2,3) show ?thesis by simp
  qed
qed

lemma pick_nonneg:
  assumes "pick x n d e = Some (s, t)" "0 \<le> n" "0 < d"
  shows "0 \<le> s"
proof -
  define q where "q = scaleNum 10 e n div scaleDen 10 e d"
  have "0 \<le> scaleNum 10 e n" "0 < scaleDen 10 e d"
    using assms(2,3) by (simp_all add: scaleNum_def scaleDen_def)
  then have q: "0 \<le> q" by (simp add: q_def pos_imp_zdiv_nonneg_iff)
  from assms(1) have "(s, t) = strip10 q e \<or> (s, t) = strip10 (q + 1) e"
    by (auto simp: pick_def Let_def q_def split: if_splits)
  then show ?thesis using q strip10_nonneg [of q e s t] strip10_nonneg [of "q + 1" e s t] by auto
qed

lemma shortest_nonneg:
  "0 \<le> fst exact \<Longrightarrow> 0 \<le> n \<Longrightarrow> 0 < d \<Longrightarrow> 0 \<le> fst (shortest fuel x n d e exact)"
proof (induction fuel arbitrary: e)
  case 0
  then show ?case by simp
next
  case (Suc fuel)
  show ?case
  proof (cases "pick x n d e")
    case None
    then show ?thesis using Suc by simp
  next
    case (Some c)
    then show ?thesis using pick_nonneg [of x n d e "fst c" "snd c"] Suc(3,4) by simp
  qed
qed

lemma shortestDigits_pos:
  assumes "0 < m" "canonical m e"
  shows "0 < fst (shortestDigits m e)"
proof -
  obtain s t where st: "shortestDigits m e = (s, t)" by (cases "shortestDigits m e")
  have "roundsTo (Finite False m e) (s, t)"
    using shortestDigits_roundsTo [OF assms] by (simp add: st)
  then have nz: "s \<noteq> 0" using assms(1) by (rule roundsTo_pos)
  define tt where "tt = (if e < 0 then m * 5 ^ nat (- e) else m * 2 ^ nat e)"
  have "0 \<le> tt" using assms(1) by (simp add: tt_def)
  then have "0 \<le> fst (strip10 tt (min e 0))"
    using strip10_nonneg [of tt "min e 0"] by (cases "strip10 tt (min e 0)") auto
  then have "0 \<le> fst (shortestDigits m e)"
    unfolding shortestDigits_def Let_def tt_def using assms(1)
    by (auto intro!: shortest_nonneg)
  with nz st show ?thesis by simp
qed

lemma parseFloat_special:
  "parseFloat ''NaN'' = NaN" "parseFloat ''Infinity'' = Infinity False"
  "parseFloat ''-Infinity'' = Infinity True" "parseFloat ''0'' = Finite False 0 (- 1074)"
  by (simp_all add: parseFloat_def isWhiteSpace_def Let_def isDigit_def roundDec_def mkFrac_def
      roundFrac_def digitsVal_def digitVal_def exponentPart_def)

lemma parseFloat_numberToString:
  assumes "wellformed x"
  shows "parseFloat (numberToString x) = (if isZero x then Finite False 0 (- 1074) else x)"
proof (cases x)
  case NaN
  then show ?thesis by (simp add: parseFloat_special)
next
  case (Infinity neg)
  then show ?thesis by (simp add: parseFloat_special)
next
  case (Finite neg m e)
  show ?thesis
  proof (cases "m = 0")
    case True
    then show ?thesis by (simp add: Finite parseFloat_special)
  next
    case False
    with assms Finite have m: "0 < m" and c: "canonical m e"
      by (auto simp: canonical_def)
    obtain s t where st: "shortestDigits m e = (s, t)" by (cases "shortestDigits m e")
    have s: "0 < s" using shortestDigits_pos [OF m c] by (simp add: st)
    have "roundDec False s t = Finite False m e"
      using shortestDigits_roundsTo [OF m c] by (simp add: st roundsTo_def)
    then have "roundDec neg s t = Finite neg m e"
      by (auto simp: roundDec_def split: prod.splits intro: roundFrac_sign)
    then show ?thesis
      using False by (simp add: Finite st parseFloat_formatDigits [OF s])
  qed
qed

section \<open>Properties of the single methods\<close>

lemma textContent_updateDisplay [simp]:
  "currentInput (updateDisplay c) = currentInput c"
  "previousValue (updateDisplay c) = previousValue c"
  "operator (updateDisplay c) = operator c"
  by (simp_all add: updateDisplay_def)

lemma calculateResult_None:
  "operator c = None \<or> previousValue c = None \<Longrightarrow> calculateResult c = c"
  by (auto simp: calculateResult_def split: option.splits)

lemma calculateResult_Some:
  "operator c = Some op \<Longrightarrow> previousValue c = Some p \<Longrightarrow>
   calculateResult c =
     updateDisplay (c\<lparr>currentInput := numberToString (applyOperator op p (parseFloat (currentInput c))),
                     previousValue := None, operator := None\<rparr>)"
  by (simp add: calculateResult_def Let_def)

lemma calculateResult_clears:
  "(previousValue (calculateResult c) = None) = (operator (calculateResult c) = None)"
  if "(previousValue c = None) = (operator c = None)"
  using that by (auto simp: calculateResult_def Let_def split: option.splits)

lemma pending_step:
  "(previousValue (step c a) = None) = (operator (step c a) = None)"
  if "(previousValue c = None) = (operator c = None)"
proof (cases a)
  case CalculateResult
  then show ?thesis using calculateResult_clears [OF that] by simp
qed (use that in \<open>simp_all add: inputDigit_def inputDecimal_def toggleSign_def clearEntry_def
      allClear_def setOperator_def calculatePercentage_def Let_def\<close>)

lemma pending_foldl:
  "(previousValue c = None) = (operator c = None) \<Longrightarrow>
   (previousValue (foldl step c as) = None) = (operator (foldl step c as) = None)"
  by (induction as arbitrary: c) (simp_all add: pending_step)

lemma constructor_fields [simp]:
  "currentInput constructor = ''0''"
  "previousValue constructor = None"
  "operator constructor = None"
  by (simp_all add: constructor_def)

lemma zero_literal: "numberLiteral 0 = Finite False 0 (- 1074)"
  by (simp add: numberLiteral_def roundFrac_def)

section \<open>Division by zero, the pending operation, and what the entry methods leave alone\<close>

text \<open>
  C2.  In a state with the pending operator \<^verbatim>\<open>/\<close> and any left operand (every state reached
  from the initial state with an operator pending has one), when the right operand, the number
  read from \<open>currentInput\<close>, is zero (of either sign), \<open>calculateResult\<close> stores the string
  \<^verbatim>\<open>0\<close> in \<open>currentInput\<close>: the division is not carried out, so neither an infinity nor NaN
  appears, and the method returns as every method of the model does.
\<close>

theorem division_by_zero_yields_zero:
  assumes "operator c = Some ''/''"
    and "previousValue c \<noteq> None \<or> (\<exists>as. c = run as constructor)"
    and "isZero (parseFloat (currentInput c))"
  shows "currentInput (calculateResult c) = ''0''"
proof -
  have "previousValue c \<noteq> None"
  proof
    assume n: "previousValue c = None"
    with assms(2) obtain as where c: "c = run as constructor" by auto
    have "(previousValue c = None) = (operator c = None)"
      unfolding c run_def by (rule pending_foldl) simp
    with n assms(1) show False by simp
  qed
  then obtain p where "previousValue c = Some p" by auto
  then show ?thesis
    using assms(1,3) by (simp add: calculateResult_Some applyOperator_def zero_literal)
qed

theorem division_by_zero_yields_zero_witness:
  "operator \<lparr>currentInput = ''0'', previousValue = Some (numberLiteral 9), operator = Some ''/'',
      textContent = ''0''\<rparr> = Some ''/'' \<and>
   previousValue \<lparr>currentInput = ''0'', previousValue = Some (numberLiteral 9),
      operator = Some ''/'', textContent = ''0''\<rparr> \<noteq> None \<and>
   isZero (parseFloat ''0'') \<and>
   currentInput (calculateResult \<lparr>currentInput = ''0'', previousValue = Some (numberLiteral 9),
      operator = Some ''/'', textContent = ''0''\<rparr>) = ''0''"
proof -
  have z: "isZero (parseFloat ''0'')"
    by code_simp
  show ?thesis
    using z division_by_zero_yields_zero
      [of "\<lparr>currentInput = ''0'', previousValue = Some (numberLiteral 9), operator = Some ''/'',
            textContent = ''0''\<rparr>"]
    by simp
qed

text \<open>
  C4.  In every state reached from the initial state by any sequence of actions,
  \<open>previousValue\<close> is \<^verbatim>\<open>null\<close> exactly when \<open>operator\<close> is \<^verbatim>\<open>null\<close>.
\<close>

theorem previousValue_operator_together:
  "(previousValue (run as constructor) = None) = (operator (run as constructor) = None)"
  unfolding run_def by (rule pending_foldl) simp

text \<open>
  C8.  \<open>inputDigit\<close>, \<open>inputDecimal\<close>, \<open>toggleSign\<close>, \<open>clearEntry\<close> and \<open>calculatePercentage\<close>
  leave \<open>previousValue\<close> and \<open>operator\<close> as they are, in every state.
\<close>

theorem entry_actions_keep_pending:
  "previousValue (inputDigit d c) = previousValue c \<and> operator (inputDigit d c) = operator c \<and>
   previousValue (inputDecimal c) = previousValue c \<and> operator (inputDecimal c) = operator c \<and>
   previousValue (toggleSign c) = previousValue c \<and> operator (toggleSign c) = operator c \<and>
   previousValue (clearEntry c) = previousValue c \<and> operator (clearEntry c) = operator c \<and>
   previousValue (calculatePercentage c) = previousValue c \<and>
   operator (calculatePercentage c) = operator c"
  by (simp add: inputDigit_def inputDecimal_def toggleSign_def clearEntry_def
      calculatePercentage_def Let_def)



section \<open>Arithmetic on well-formed Numbers\<close>

lemma roundDec_wellformed: "0 \<le> s \<Longrightarrow> wellformed (roundDec neg s e)"
  by (auto simp: roundDec_def mkFrac_def intro!: roundFrac_wellformed)

lemma parseFloat_wellformed: "wellformed (parseFloat str)"
  by (simp add: parseFloat_def Let_def roundDec_wellformed digitsVal_nonneg)

lemma parseInt_wellformed: "wellformed (parseInt str)"
  by (simp add: parseInt_def Let_def roundFrac_wellformed digitsVal_nonneg)

lemma canonical_nonneg: "canonical m e \<Longrightarrow> 0 \<le> m"
  by (auto simp: canonical_def)

lemma unaryMinus_wellformed: "wellformed x \<Longrightarrow> wellformed (unaryMinus x)"
  by (cases x) simp_all

lemma zero_canonical [simp]: "canonical 0 (- 1074)"
  by (simp add: canonical_def)

lemma numAdd_wellformed: "wellformed x \<Longrightarrow> wellformed y \<Longrightarrow> wellformed (numAdd x y)"
  by (cases x; cases y) (auto simp: Let_def intro!: roundFrac_wellformed)

lemma numMul_wellformed: "wellformed x \<Longrightarrow> wellformed y \<Longrightarrow> wellformed (numMul x y)"
  by (cases x; cases y) (auto simp: Let_def dest!: canonical_nonneg intro!: roundFrac_wellformed)

lemma numDiv_wellformed: "wellformed x \<Longrightarrow> wellformed y \<Longrightarrow> wellformed (numDiv x y)"
proof (cases x; cases y)
  fix s1 m1 e1 s2 m2 e2
  assume x: "x = Finite s1 m1 e1" and y: "y = Finite s2 m2 e2"
  assume "wellformed x" "wellformed y"
  then have m: "0 \<le> m1" "0 \<le> m2" using x y by (auto dest: canonical_nonneg)
  show "wellformed (numDiv x y)"
  proof (cases "m2 = 0")
    case True
    then show ?thesis by (simp add: x y)
  next
    case False
    with m have "0 < m2" by simp
    then show ?thesis using m(1) by (auto simp: x y intro!: roundFrac_wellformed)
  qed
qed simp_all

lemma applyOperator_wellformed:
  "wellformed p \<Longrightarrow> wellformed c \<Longrightarrow> wellformed (applyOperator op p c)"
  by (simp add: applyOperator_def numAdd_wellformed numSub_def unaryMinus_wellformed
      numMul_wellformed numDiv_wellformed zero_literal)

text \<open>The sign of a zero left operand does not show in the string of the result.\<close>

lemma roundFrac_zero [simp]: "roundFrac neg 0 d = Finite neg 0 (- 1074)"
  by (simp add: roundFrac_def)

lemma numberToString_zero [simp]: "numberToString (Finite neg 0 e) = ''0''"
  by simp

lemma numAdd_zero_sign:
  "numberToString (numAdd (Finite s 0 e) y) = numberToString (numAdd (Finite s' 0 e) y)"
  by (cases y) (simp_all add: Let_def)

lemma numMul_zero_sign:
  "numberToString (numMul (Finite s 0 e) y) = numberToString (numMul (Finite s' 0 e) y)"
  by (cases y) (simp_all add: Let_def)

lemma numDiv_zero_sign:
  "numberToString (numDiv (Finite s 0 e) y) = numberToString (numDiv (Finite s' 0 e) y)"
  by (cases y) (simp_all add: Let_def)

lemma applyOperator_zero_sign:
  "numberToString (applyOperator op (Finite s 0 e) c) = numberToString (applyOperator op (Finite s' 0 e) c)"
  using numAdd_zero_sign [of s e c s'] numAdd_zero_sign [of s e "unaryMinus c" s']
    numMul_zero_sign [of s e c s'] numDiv_zero_sign [of s e c s']
  by (simp add: applyOperator_def numSub_def)

lemma applyOperator_roundtrip:
  assumes "wellformed r"
  shows "numberToString (applyOperator op (parseFloat (numberToString r)) c)
         = numberToString (applyOperator op r c)"
proof (cases "isZero r")
  case True
  then obtain s e where r: "r = Finite s 0 e" by (cases r) auto
  with assms have "e = - 1074" by (auto simp: canonical_def)
  with r show ?thesis
    using applyOperator_zero_sign [of op False "- 1074" c s]
    by (simp add: parseFloat_special)
next
  case False
  then show ?thesis using parseFloat_numberToString [OF assms] by simp
qed

section \<open>Runs of entry actions\<close>

lemma run_append: "run (xs @ ys) c = run ys (run xs c)"
  by (simp add: run_def)

lemma run_Cons: "run (a # xs) c = run xs (step c a)"
  by (simp add: run_def)

lemma run_Nil [simp]: "run [] c = c"
  by (simp add: run_def)

lemma entry_step_pending:
  "entryAction a \<Longrightarrow> previousValue (step c a) = previousValue c \<and> operator (step c a) = operator c"
  by (cases a) (simp_all add: inputDigit_def inputDecimal_def toggleSign_def)

lemma entry_step_input:
  "entryAction a \<Longrightarrow> currentInput c = currentInput c' \<Longrightarrow>
     currentInput (step c a) = currentInput (step c' a)"
  by (cases a) (simp_all add: inputDigit_def inputDecimal_def toggleSign_def)

lemma entry_run_pending:
  "list_all entryAction xs \<Longrightarrow>
     previousValue (run xs c) = previousValue c \<and> operator (run xs c) = operator c"
  by (induction xs arbitrary: c) (simp_all add: run_Cons entry_step_pending)

lemma entry_run_input:
  "list_all entryAction xs \<Longrightarrow> currentInput c = currentInput c' \<Longrightarrow>
     currentInput (run xs c) = currentInput (run xs c')"
proof (induction xs arbitrary: c c')
  case Nil
  then show ?case by simp
next
  case (Cons a xs)
  from Cons.prems have st: "currentInput (step c a) = currentInput (step c' a)"
    by (intro entry_step_input) simp_all
  from Cons.prems have "list_all entryAction xs" by simp
  then show ?case unfolding run_Cons using st by (rule Cons.IH)
qed

lemma entry_run_entered:
  "list_all entryAction xs \<Longrightarrow> currentInput c = ''0'' \<Longrightarrow> currentInput (run xs c) = entered xs"
  unfolding entered_def by (rule entry_run_input) simp_all

lemma setOperator_fields:
  "currentInput (setOperator op c) = ''0''"
  "operator (setOperator op c) = Some op"
  "previousValue (setOperator op c) =
     Some (parseFloat (currentInput
       (if truthy (operator c) \<and> previousValue c \<noteq> None then calculateResult c else c)))"
  by (simp_all add: setOperator_def Let_def)

lemma operatorKeys_truthy: "op \<in> operatorKeys \<Longrightarrow> truthy (Some op)"
  by (auto simp: operatorKeys_def)

lemma setOperator_pending:
  assumes "operator c = Some op1" "op1 \<in> operatorKeys" "previousValue c = Some p"
  shows "previousValue (setOperator op2 c)
         = Some (parseFloat (numberToString (applyOperator op1 p (parseFloat (currentInput c)))))"
  using assms operatorKeys_truthy [OF assms(2)]
  by (simp add: setOperator_fields calculateResult_Some)

lemma setOperator_idle:
  assumes "operator c = None"
  shows "previousValue (setOperator op c) = Some (parseFloat (currentInput c))"
  using assms by (simp add: setOperator_fields)

lemma calculateResult_input:
  "operator c = Some op \<Longrightarrow> previousValue c = Some p \<Longrightarrow>
     currentInput (calculateResult c) = numberToString (applyOperator op p (parseFloat (currentInput c)))"
  by (simp add: calculateResult_Some)

lemma parseFloat_zero_literal: "parseFloat ''0'' = numberLiteral 0"
  by (simp add: parseFloat_special zero_literal)

lemma numMul_zero_right:
  "numMul (Finite s m e) (Finite s' 0 e') = Finite (s \<noteq> s') 0 (- 1074)"
  by (simp add: Let_def)

section \<open>The display\<close>

lemma updateDisplay_textContent [simp]:
  "textContent (updateDisplay c) = formatDisplay (currentInput c)"
  by (simp add: updateDisplay_def)

lemma display_step:
  assumes "textContent c = formatDisplay (currentInput c)"
  shows "textContent (step c a) = formatDisplay (currentInput (step c a))"
proof (cases a)
  case InputDecimal
  then show ?thesis using assms by (simp add: inputDecimal_def)
next
  case CalculateResult
  then show ?thesis using assms
    by (simp add: calculateResult_def Let_def split: option.splits)
qed (simp_all add: inputDigit_def toggleSign_def clearEntry_def allClear_def setOperator_def
      calculatePercentage_def Let_def)

lemma display_run:
  "textContent c = formatDisplay (currentInput c) \<Longrightarrow>
     textContent (run as c) = formatDisplay (currentInput (run as c))"
  by (induction as arbitrary: c) (simp_all add: run_Cons display_step)

lemma display_constructor: "textContent constructor = formatDisplay (currentInput constructor)"
  by (simp add: constructor_def)

lemma parseInt_digits:
  assumes "u \<noteq> []" "\<forall>c\<in>set u. isDigit c"
  shows "parseInt (signPrefix neg @ u) = roundFrac neg (digitsVal u) 1"
proof -
  obtain c cs where u: "u = c # cs" using assms(1) by (cases u) auto
  with assms(2) have c: "isDigit c" by simp
  have tw: "takeWhile isDigit u = u" using assms(2) by (simp add: takeWhile_digits_all)
  have "parseInt (signPrefix neg @ u) = roundFrac neg (digitsVal (takeWhile isDigit u)) 1"
    using c isDigit_neq [OF c] isDigit_not_space [OF c]
    by (cases neg) (simp_all add: parseInt_def signPrefix_def Let_def u)
  then show ?thesis by (simp only: tw)
qed

lemma signedDigits_split:
  assumes "signedDigits t"
  obtains neg u where "t = signPrefix neg @ u" "u \<noteq> []" "\<forall>c\<in>set u. isDigit c"
proof (cases "t \<noteq> [] \<and> hd t = CHR ''-''")
  case True
  then have "t = signPrefix True @ tl t" by (cases t) (simp_all add: signPrefix_def)
  moreover have "tl t \<noteq> []" "\<forall>c\<in>set (tl t). isDigit c"
    using assms True by (simp_all add: signedDigits_def list_all_iff Let_def)
  ultimately show ?thesis by (rule that)
next
  case False
  then have "t = signPrefix False @ t" by (simp add: signPrefix_def)
  moreover have "t \<noteq> []" "\<forall>c\<in>set t. isDigit c"
    using assms False by (auto simp: signedDigits_def list_all_iff Let_def)
  ultimately show ?thesis by (rule that)
qed

lemma parseInt_signedDigits: "signedDigits t \<Longrightarrow> parseInt t = parseFloat t"
proof -
  assume "signedDigits t"
  then obtain neg u where t: "t = signPrefix neg @ u" and u: "u \<noteq> []" "\<forall>c\<in>set u. isDigit c"
    by (rule signedDigits_split)
  have "parseFloat (signPrefix neg @ u @ []) = roundDec neg (digitsVal u) (exponentPart [])"
    using u by (intro parseFloat_nodot) auto
  then have "parseFloat t = roundFrac neg (digitsVal u) 1"
    by (simp add: t roundDec_def mkFrac_def)
  then show ?thesis using parseInt_digits [OF u, of neg] by (simp add: t)
qed

lemma numberToString_roundtrip:
  "wellformed x \<Longrightarrow> numberToString (parseFloat (numberToString x)) = numberToString x"
  using parseFloat_numberToString [of x] by (cases x) auto

lemma formatDisplay_idem:
  assumes "stringIncludes (formatDisplay s) CHR ''.'' \<or> signedDigits (formatDisplay s)
             \<or> formatDisplay s = ''NaN''"
  shows "formatDisplay (formatDisplay s) = formatDisplay s"
proof (cases "stringIncludes (formatDisplay s) CHR ''.''")
  case True
  then show ?thesis by (simp add: formatDisplay_def [of "formatDisplay s"])
next
  case False
  then have nd: "\<not> stringIncludes s CHR ''.''" by (auto simp: formatDisplay_def)
  then have f: "formatDisplay s = numberToString (parseInt s)" by (simp add: formatDisplay_def)
  have ff: "formatDisplay (formatDisplay s) = numberToString (parseInt (formatDisplay s))"
    using False by (simp add: formatDisplay_def [of "formatDisplay s"])
  from assms False consider "signedDigits (formatDisplay s)" | "formatDisplay s = ''NaN''" by blast
  then show ?thesis
  proof cases
    case 1
    then have "parseInt (formatDisplay s) = parseFloat (numberToString (parseInt s))"
      by (simp add: parseInt_signedDigits f)
    then show ?thesis
      by (simp only: ff) (simp add: f numberToString_roundtrip parseInt_wellformed)
  next
    case 2
    have "parseInt ''NaN'' = NaN"
      by (simp add: parseInt_def Let_def isWhiteSpace_def isDigit_def)
    then have "numberToString (parseInt ''NaN'') = ''NaN''" by simp
    then show ?thesis unfolding ff unfolding 2 .
  qed
qed

text \<open>
  C5.  The display is a function of \<open>currentInput\<close>: in every state reached from the initial
  state \<open>textContent\<close> is \<open>formatDisplay\<close> of \<open>currentInput\<close>.  A string without a decimal point
  is parsed as an integer and written back as a string, a string with a decimal point is
  shown unchanged, and formatting a formatted string again changes nothing when the formatted
  string has a decimal point, is an optional minus sign followed by digits, or is \<^verbatim>\<open>NaN\<close>.
\<close>

theorem display_formats_currentInput:
  "textContent (run as constructor) = formatDisplay (currentInput (run as constructor)) \<and>
   (\<not> stringIncludes s CHR ''.'' \<longrightarrow> formatDisplay s = numberToString (parseInt s)) \<and>
   (stringIncludes s CHR ''.'' \<longrightarrow> formatDisplay s = s) \<and>
   (stringIncludes (formatDisplay s) CHR ''.'' \<or> signedDigits (formatDisplay s)
      \<or> formatDisplay s = ''NaN'' \<longrightarrow> formatDisplay (formatDisplay s) = formatDisplay s)"
  using display_run [OF display_constructor, of as] formatDisplay_idem [of s]
  by (auto simp: formatDisplay_def [of s])

theorem display_formats_currentInput_witness:
  "\<not> stringIncludes ''007'' CHR ''.'' \<and> formatDisplay ''007'' = ''7'' \<and>
   signedDigits (formatDisplay ''007'') \<and>
   formatDisplay (formatDisplay ''007'') = formatDisplay ''007'' \<and>
   stringIncludes ''3.'' CHR ''.'' \<and> formatDisplay ''3.'' = ''3.''"
proof -
  have a: "numberToString (parseInt ''007'') = ''7''"
    by code_simp
  have b: "signedDigits ''7''"
    by (simp add: signedDigits_def isDigit_def)
  have n: "\<not> stringIncludes ''007'' CHR ''.''" and d: "stringIncludes ''3.'' CHR ''.''"
    by (simp_all add: stringIncludes_def)
  from display_formats_currentInput [of "[]" "''007''"] n
  have f: "formatDisplay ''007'' = numberToString (parseInt ''007'')"
    and i: "signedDigits (formatDisplay ''007'') \<longrightarrow>
            formatDisplay (formatDisplay ''007'') = formatDisplay ''007''"
    by blast+
  from display_formats_currentInput [of "[]" "''3.''"] d
  have g: "formatDisplay ''3.'' = ''3.''"
    by blast
  have f': "formatDisplay ''007'' = ''7''" by (simp only: f a)
  have s: "signedDigits (formatDisplay ''007'')" by (simp only: f' b)
  from i s have "formatDisplay (formatDisplay ''007'') = formatDisplay ''007''" by blast
  with n d f' s g show ?thesis by blast
qed

text \<open>
  The twenty-two digits of \<open>10\<^sup>2\<^sup>1\<close> are formatted to \<^verbatim>\<open>1e+21\<close>, and that string to \<^verbatim>\<open>1\<close>.
\<close>

theorem formatDisplay_not_idempotent:
  "formatDisplay (formatDisplay ''1000000000000000000000'')
     \<noteq> formatDisplay ''1000000000000000000000''"
proof -
  have a: "formatDisplay ''1000000000000000000000'' = ''1e+21''"
    by code_simp
  have b: "formatDisplay ''1e+21'' = ''1''"
    by code_simp
  show ?thesis by (simp add: a b)
qed

section \<open>Integers of at most fifteen digits\<close>

lemma strip10_exponent: "strip10 s e = (s', e') \<Longrightarrow> e \<le> e'"
proof (induction s e rule: strip10.induct)
  case (1 s e)
  show ?case
  proof (cases "s \<noteq> 0 \<and> s mod 10 = 0")
    case True
    then have st: "strip10 (s div 10) (e + 1) = (s', e')"
      using 1(2) by (subst (asm) strip10.simps) simp
    from 1(1) [OF True st] show ?thesis by simp
  next
    case False
    then have "strip10 s e = (s, e)" by (subst strip10.simps) auto
    with 1(2) show ?thesis by simp
  qed
qed

lemma small_int_canonical:
  assumes "0 < V" "V < 2 ^ 53"
  obtains m e where "canonical m e" "0 < m" "real_of_int m * 2 powi e = real_of_int V"
proof -
  define b where "b = numDigits 2 V"
  have bp: "0 < b" by (simp add: b_def numDigits_pos)
  from numDigits_bounds [of 2 V] assms(1)
  have lo: "2 ^ (b - 1) \<le> V" and hi: "V < 2 ^ b" by (simp_all add: b_def)
  have b53: "b \<le> 53"
  proof (rule ccontr)
    assume "\<not> b \<le> 53"
    then have "53 \<le> b - 1" by simp
    then have "(2::int) ^ 53 \<le> 2 ^ (b - 1)" by (intro power_increasing) simp_all
    with lo assms(2) show False by linarith
  qed
  define m where "m = V * 2 ^ (53 - b)"
  define e where "e = int b - 53"
  have "(2::int) ^ 52 = 2 ^ (b - 1) * 2 ^ (53 - b)"
    using bp b53 by (simp add: power_add [symmetric])
  also have "\<dots> \<le> m" unfolding m_def using lo by (intro mult_right_mono) simp_all
  finally have m1: "2 ^ 52 \<le> m" .
  have "m < 2 ^ b * 2 ^ (53 - b)" unfolding m_def using hi by (intro mult_strict_right_mono) simp_all
  also have "\<dots> = 2 ^ 53" using b53 by (simp add: power_add [symmetric])
  finally have m2: "m < 2 ^ 53" .
  have c: "canonical m e" using m1 m2 b53 by (simp add: canonical_def e_def)
  have mp: "0 < m" using m1 by simp
  have "e = - int (53 - b)" using b53 by (simp add: e_def)
  then have "(2::real) powi e = 1 / 2 ^ (53 - b)"
    by (simp add: power_int_minus field_simps)
  then have v: "real_of_int m * 2 powi e = real_of_int V"
    by (simp add: m_def)
  from c mp v show ?thesis by (rule that)
qed

lemma roundDec_small_int:
  assumes "0 < s" "0 \<le> t" "s * 10 ^ nat t < 2 ^ 53" "0 < m"
    and "roundDec False s t = Finite False m e"
  shows "real_of_int m * 2 powi e = real_of_int (s * 10 ^ nat t)"
proof -
  have V: "0 < s * 10 ^ nat t" using assms(1) by simp
  obtain m' e' where c: "canonical m' e'" "0 < m'"
    and v: "real_of_int m' * 2 powi e' = real_of_int (s * 10 ^ nat t)"
    using small_int_canonical [OF V assms(3)] by blast
  have "real_of_int s * 10 powi t = real_of_int m' * 2 powi e'"
    using assms(2) v by (simp add: power_int_def)
  then have "roundDec False s t = Finite False m' e'"
    using roundDec_exact [OF c(2,1) assms(1)] by simp
  with assms(5) have "m' = m" "e' = e" by simp_all
  with v show ?thesis by simp
qed

lemma pick_candidates:
  assumes "pick x n d t = Some c"
  shows "roundsTo x c \<and>
    (c = strip10 (scaleNum 10 t n div scaleDen 10 t d) t \<or>
     c = strip10 (scaleNum 10 t n div scaleDen 10 t d + 1) t)"
  using assms by (auto simp: pick_def Let_def split: if_splits)

lemma pick_lo:
  assumes "roundsTo x (strip10 (scaleNum 10 t n div scaleDen 10 t d) t)"
  shows "pick x n d t \<noteq> None"
  using assms by (auto simp: pick_def Let_def)

lemma int_of_real_eq:
  assumes "real_of_int a * 10 powi i = real_of_int b * 10 powi j" "0 \<le> i" "0 \<le> j"
  shows "a * 10 ^ nat i = b * 10 ^ nat j"
proof -
  have "real_of_int (a * 10 ^ nat i) = real_of_int (b * 10 ^ nat j)"
    using assms by (simp add: power_int_def)
  then show ?thesis by (simp only: of_int_eq_iff)
qed

lemma pick_small_int:
  assumes N: "0 < N" "N < 10 ^ 15" and m: "0 < m" and md: "m = N * d" "0 < d"
    and v: "real_of_int m * 2 powi e = real_of_int N"
    and t: "0 \<le> t" "10 ^ nat t \<le> N"
    and p: "pick (Finite False m e) m d t = Some (s', e')"
  shows "0 \<le> e' \<and> 0 < s' \<and> s' * 10 ^ nat e' = N"
proof -
  define q where "q = N div 10 ^ nat t"
  have sc: "scaleNum 10 t m div scaleDen 10 t d = q"
    using t(1) md by (simp add: scaleNum_def scaleDen_def q_def)
  have q1: "1 \<le> q" unfolding q_def using t(2)
    by (simp add: pos_imp_zdiv_pos_iff int_one_le_iff_zero_less)
  have qN: "q * 10 ^ nat t \<le> N" unfolding q_def
    by (metis div_mult_mod_eq pos_mod_sign zero_less_numeral zero_less_power le_add_same_cancel1)
  from pick_candidates [OF p] obtain Q where Q: "Q = q \<or> Q = q + 1"
    and st: "strip10 Q t = (s', e')" and r: "roundsTo (Finite False m e) (s', e')"
    unfolding sc by metis
  have Qp: "0 < Q" using Q q1 by auto
  from strip10_value [OF st] Qp
  have val: "real_of_int s' * 10 powi e' = real_of_int Q * 10 powi t" and sp: "0 < s'" by simp_all
  have e': "0 \<le> e'" using strip10_exponent [OF st] t(1) by simp
  have V: "s' * 10 ^ nat e' = Q * 10 ^ nat t" using int_of_real_eq [OF val e' t(1)] .
  have "Q * 10 ^ nat t \<le> q * 10 ^ nat t + 10 ^ nat t" using Q by (auto simp: algebra_simps)
  also have "\<dots> \<le> N + N" using qN t(2) by linarith
  also have "\<dots> < 2 ^ 53" using N(2) by simp
  finally have small: "s' * 10 ^ nat e' < 2 ^ 53" by (simp add: V)
  have "roundDec False s' e' = Finite False m e" using r by (simp add: roundsTo_def)
  from roundDec_small_int [OF sp e' small m this] v
  have "real_of_int (s' * 10 ^ nat e') = real_of_int N" by simp
  then have "s' * 10 ^ nat e' = N" by (simp only: of_int_eq_iff)
  with e' sp show ?thesis by simp
qed

lemma pick_small_int_zero:
  assumes N: "0 < N" and m: "0 < m" "canonical m e" and md: "m = N * d" "0 < d"
    and v: "real_of_int m * 2 powi e = real_of_int N"
  shows "pick (Finite False m e) m d 0 \<noteq> None"
proof -
  have sc: "scaleNum 10 0 m div scaleDen 10 0 d = N"
    using md by (simp add: scaleNum_def scaleDen_def)
  obtain s' e' where st: "strip10 N 0 = (s', e')" by (cases "strip10 N 0")
  from strip10_value [OF st] N v
  have "real_of_int s' * 10 powi e' = real_of_int m * 2 powi e" "0 < s'" by simp_all
  then have "roundDec False s' e' = Finite False m e"
    using roundDec_exact [OF m] by simp
  then have "roundsTo (Finite False m e) (strip10 N 0)" by (simp add: roundsTo_def st)
  then show ?thesis by (intro pick_lo) (simp only: sc)
qed

lemma shortest_small_int:
  assumes N: "0 < N" "N < 10 ^ 15" and m: "0 < m" "canonical m e" and md: "m = N * d" "0 < d"
    and v: "real_of_int m * 2 powi e = real_of_int N"
  shows "0 \<le> t \<Longrightarrow> 10 ^ nat t \<le> N \<Longrightarrow> nat t < fuel \<Longrightarrow>
    shortest fuel (Finite False m e) m d t exact = (s', e') \<Longrightarrow>
    0 \<le> e' \<and> 0 < s' \<and> s' * 10 ^ nat e' = N"
proof (induction fuel arbitrary: t)
  case 0
  then show ?case by simp
next
  case (Suc fuel)
  show ?case
  proof (cases "pick (Finite False m e) m d t")
    case (Some c)
    with Suc.prems(4) have "pick (Finite False m e) m d t = Some (s', e')" by simp
    then show ?thesis
      using pick_small_int [OF N m(1) md v Suc.prems(1,2)] by simp
  next
    case None
    have t0: "t \<noteq> 0" using None pick_small_int_zero [OF N(1) m md v] by auto
    with Suc.prems(1) have t1: "0 \<le> t - 1" by simp
    have "(10::int) ^ nat (t - 1) \<le> 10 ^ nat t" by (intro power_increasing) simp_all
    with Suc.prems(2) have t2: "10 ^ nat (t - 1) \<le> N" by linarith
    have t3: "nat (t - 1) < fuel" using Suc.prems(3) t0 Suc.prems(1) by linarith
    have "shortest fuel (Finite False m e) m d (t - 1) exact = (s', e')"
      using Suc.prems(4) None by simp
    then show ?thesis using Suc.IH [OF t1 t2 t3] by simp
  qed
qed

lemma digitsOf_length: "0 \<le> n \<Longrightarrow> length (digitsOf n) = numDigits 10 n"
proof (induction n rule: digitsOf.induct)
  case (1 n)
  show ?case
  proof (cases "n < 10")
    case True
    then show ?thesis
      by (subst digitsOf.simps, subst numDigits.simps) simp
  next
    case False
    then have "0 \<le> n div 10" using 1(2) by simp
    with 1(1) [OF False] have "length (digitsOf (n div 10)) = numDigits 10 (n div 10)" by simp
    then show ?thesis using False
      by (subst digitsOf.simps, subst numDigits.simps) simp
  qed
qed

lemma digitsOf_times10:
  assumes "0 < s"
  shows "digitsOf (s * 10) = digitsOf s @ ''0''"
proof -
  have "\<not> s * 10 < 10" using assms by simp
  then show ?thesis by (subst digitsOf.simps) (simp add: digitChar_def)
qed

lemma digitsOf_shift: "0 < s \<Longrightarrow> digitsOf (s * 10 ^ j) = digitsOf s @ replicate j CHR ''0''"
proof (induction j)
  case 0
  then show ?case by simp
next
  case (Suc j)
  have eq: "s * 10 ^ Suc j = (s * 10 ^ j) * 10" by (simp add: ac_simps)
  have "digitsOf (s * 10 ^ Suc j) = digitsOf ((s * 10 ^ j) * 10)" by (simp only: eq)
  also have "\<dots> = digitsOf (s * 10 ^ j) @ ''0''" using Suc.prems by (intro digitsOf_times10) simp
  also have "\<dots> = digitsOf s @ replicate (Suc j) CHR ''0''"
    using Suc by (simp add: replicate_append_same)
  finally show ?case .
qed

lemma numDigits_le:
  assumes "0 < N" "N < 10 ^ k"
  shows "numDigits 10 N \<le> k"
proof (rule ccontr)
  assume "\<not> numDigits 10 N \<le> k"
  then have "k \<le> numDigits 10 N - 1" by simp
  then have "(10::int) ^ k \<le> 10 ^ (numDigits 10 N - 1)" by (intro power_increasing) simp_all
  also have "\<dots> \<le> N" using numDigits_bounds [of 10 N] assms(1) by simp
  finally show False using assms(2) by simp
qed

lemma numDigits_gt:
  assumes "10 ^ k \<le> N"
  shows "k < numDigits 10 N"
proof -
  have "(0::int) < 10 ^ k" by simp
  with assms have N: "0 < N" by linarith
  have "N < 10 ^ numDigits 10 N" using numDigits_bounds [of 10 N] N by simp
  with assms have "(10::int) ^ k < 10 ^ numDigits 10 N" by linarith
  then show ?thesis by (rule power_less_imp_less_exp [rotated]) simp
qed

lemma numberToString_small_int:
  assumes N: "0 < N" "N < 10 ^ 15"
  shows "numberToString (roundFrac False N 1) = digitsOf N"
proof -
  have "N < 2 ^ 53" using N(2) by simp
  then obtain m e where c: "canonical m e" and m: "0 < m"
    and v: "real_of_int m * 2 powi e = real_of_int N"
    using small_int_canonical [OF N(1)] by blast
  have x: "roundFrac False N 1 = Finite False m e"
    using roundFrac_exact [OF m c N(1), of 1 False] v by simp
  have e: "e < 0"
  proof (rule ccontr)
    assume "\<not> e < 0"
    with c have "2 ^ 52 \<le> m" and e0: "0 \<le> e" by (auto simp: canonical_def)
    then have "real_of_int (2 ^ 52) \<le> real_of_int m" by (simp only: of_int_le_iff)
    moreover have "(1::real) \<le> 2 powi e" using e0 by (simp add: power_int_def)
    ultimately have "real_of_int (2 ^ 52) * 1 \<le> real_of_int m * 2 powi e"
      by (intro mult_mono) simp_all
    then have "real_of_int (2 ^ 52) \<le> real_of_int N" using v by simp
    then have "2 ^ 52 \<le> N" by (simp only: of_int_le_iff)
    with N(2) show False by simp
  qed
  define k where "k = nat (- e)"
  define d :: int where "d = 2 ^ k"
  have k: "0 < k" "e = - int k" using e by (simp_all add: k_def)
  have dp: "0 < d" by (simp add: d_def)
  have "real_of_int m = real_of_int N * 2 ^ k"
    using v k by (simp add: power_int_minus field_simps)
  then have "real_of_int m = real_of_int (N * d)" by (simp add: d_def)
  then have md: "m = N * d" by (simp only: of_int_eq_iff)
  define D where "D = numDigits 10 N"
  have Dp: "0 < D" by (simp add: D_def numDigits_pos)
  have D15: "D \<le> 15" unfolding D_def using N by (rule numDigits_le)
  have ratio: "real_of_int m / real_of_int d = real_of_int N" using md dp by simp
  have "ilog 10 m d = int D - 1"
  proof (rule powi_floor_unique [where B = 10 and v = "real_of_int N"])
    show "(1::real) < 10" by simp
    show "10 powi ilog 10 m d \<le> real_of_int N" "real_of_int N < 10 powi (ilog 10 m d + 1)"
      using ilog_bounds [of 10 m d] m dp ratio by simp_all
    show "10 powi (int D - 1) \<le> real_of_int N" "real_of_int N < 10 powi (int D - 1 + 1)"
      using numDigits_powi [of 10 N] N(1) by (simp_all add: D_def)
  qed
  then have n0: "ilog 10 m d + 1 - 1 = int D - 1" by simp
  define tt where "tt = m * 5 ^ k"
  have tt: "tt = N * 10 ^ k"
    by (simp add: tt_def md d_def power_mult_distrib [symmetric] mult.assoc)
  have lo: "10 ^ (D - 1) \<le> N" using numDigits_bounds [of 10 N] N(1) by (simp add: D_def)
  have "(10::int) ^ D = 10 ^ (D - 1) * 10 ^ 1" using Dp by (cases D) simp_all
  also have "\<dots> \<le> N * 10 ^ k"
    using lo k(1) N(1) by (intro mult_mono power_increasing) simp_all
  finally have "10 ^ D \<le> tt" by (simp add: tt)
  then have "D < numDigits 10 tt" by (rule numDigits_gt)
  moreover have "0 \<le> tt" using N(1) by (simp add: tt)
  ultimately have fuel: "nat (int D - 1) < length (digitsOf tt) - 1"
    using Dp by (simp add: digitsOf_length)
  have sd: "shortestDigits m e =
      shortest (length (digitsOf tt) - 1) (Finite False m e) m d (int D - 1) (strip10 tt e)"
    using e n0 by (simp add: shortestDigits_def Let_def k_def [symmetric] d_def tt_def)
  obtain s' e' where se: "shortestDigits m e = (s', e')" by (cases "shortestDigits m e")
  have t1: "0 \<le> int D - 1" using Dp by simp
  have t2: "10 ^ nat (int D - 1) \<le> N" using lo Dp by (simp add: nat_diff_distrib)
  from shortest_small_int [OF N m c md dp v t1 t2 fuel] se sd
  have r: "0 \<le> e'" "0 < s'" "s' * 10 ^ nat e' = N" by simp_all
  have dN: "digitsOf N = digitsOf s' @ replicate (nat e') CHR ''0''"
    using digitsOf_shift [OF r(2), of "nat e'"] r(3) by simp
  have "int (length (digitsOf N)) = int D" using N(1) by (simp add: digitsOf_length D_def)
  then have len: "e' + int (length (digitsOf s')) = int D" using r(1) by (simp add: dN)
  have "formatDigits (s', e') = digitsOf s' @ replicate (nat e') CHR ''0''"
    using len D15 r(1) by (simp add: formatDigits_def Let_def)
  then show ?thesis using m by (simp add: x se signPrefix_def dN)
qed

lemma isDigit_cases:
  assumes "isDigit c"
  shows "c = CHR ''0'' \<or> c = CHR ''1'' \<or> c = CHR ''2'' \<or> c = CHR ''3'' \<or> c = CHR ''4'' \<or>
         c = CHR ''5'' \<or> c = CHR ''6'' \<or> c = CHR ''7'' \<or> c = CHR ''8'' \<or> c = CHR ''9''"
  using assms by (auto simp: isDigit_def)

lemma digitChar_digitVal: "isDigit c \<Longrightarrow> digitChar (digitVal c) = c"
  using isDigit_cases [of c] by (auto simp: digitVal_def digitChar_def)

lemma digitVal_range: "isDigit c \<Longrightarrow> 0 \<le> digitVal c \<and> digitVal c < 10"
  using isDigit_cases [of c] by (auto simp: digitVal_def)

lemma digitVal_pos: "isDigit c \<Longrightarrow> c \<noteq> CHR ''0'' \<Longrightarrow> 0 < digitVal c"
  using isDigit_cases [of c] by (auto simp: digitVal_def)

lemma digitsVal_bound: "\<forall>c\<in>set s. isDigit c \<Longrightarrow> digitsVal s < 10 ^ length s"
proof (induction s rule: rev_induct)
  case Nil
  then show ?case by simp
next
  case (snoc c s)
  then have "digitsVal s + 1 \<le> 10 ^ length s" and "digitVal c < 10"
    using digitVal_range [of c] by simp_all
  then have "10 * digitsVal s + digitVal c < 10 * 10 ^ length s" by linarith
  then show ?case by (simp add: digitsVal_snoc)
qed

lemma digitsOf_digitsVal:
  "s \<noteq> [] \<Longrightarrow> \<forall>c\<in>set s. isDigit c \<Longrightarrow> hd s \<noteq> CHR ''0'' \<Longrightarrow>
     digitsOf (digitsVal s) = s \<and> 0 < digitsVal s"
proof (induction s rule: rev_nonempty_induct)
  case (single c)
  then have c: "isDigit c" "c \<noteq> CHR ''0''" by simp_all
  have v: "digitsVal [c] = digitVal c" by (simp add: digitsVal_def)
  have "digitsOf (digitVal c) = [digitChar (digitVal c)]"
    using digitVal_range [OF c(1)] by (subst digitsOf.simps) simp
  then show ?case using c by (simp add: v digitChar_digitVal digitVal_pos)
next
  case (snoc c s)
  then have ih: "digitsOf (digitsVal s) = s" "0 < digitsVal s" and c: "isDigit c"
    by simp_all
  define n where "n = 10 * digitsVal s + digitVal c"
  from digitVal_range [OF c] have r: "0 \<le> digitVal c" "digitVal c < 10" by simp_all
  have ge: "\<not> n < 10" using ih(2) r by (simp add: n_def)
  have dv: "n div 10 = digitsVal s" "n mod 10 = digitVal c" using r by (simp_all add: n_def)
  have "digitsOf n = digitsOf (n div 10) @ [digitChar (n mod 10)]"
    using ge by (subst digitsOf.simps) simp
  then have "digitsOf n = s @ [c]" using c by (simp add: dv ih digitChar_digitVal)
  moreover have "0 < n" using ge by simp
  ultimately show ?case by (simp add: digitsVal_snoc n_def)
qed

lemma formatDisplay_digits:
  assumes "s \<noteq> []" "\<forall>c\<in>set s. isDigit c" "hd s \<noteq> CHR ''0''" "length s \<le> 15"
  shows "formatDisplay s = s"
proof -
  have nd: "\<not> stringIncludes s CHR ''.''"
    using assms(2) by (auto simp: stringIncludes_def)
  have p: "parseInt s = roundFrac False (digitsVal s) 1"
    using parseInt_digits [OF assms(1,2), of False] by (simp add: signPrefix_def)
  from digitsOf_digitsVal [OF assms(1,2,3)]
  have d: "digitsOf (digitsVal s) = s" and pos: "0 < digitsVal s" by simp_all
  have "digitsVal s < 10 ^ length s" using assms(2) by (rule digitsVal_bound)
  also have "\<dots> \<le> 10 ^ 15" using assms(4) by (intro power_increasing) simp_all
  finally have "digitsVal s < 10 ^ 15" .
  from numberToString_small_int [OF pos this] show ?thesis
    using nd by (simp add: formatDisplay_def p d)
qed

section \<open>Entering digits\<close>

lemma digitKeys_single: "d \<in> digitKeys \<Longrightarrow> \<exists>c. d = [c] \<and> isDigit c"
  by (auto simp: digitKeys_def isDigit_def)

lemma inputDigit_input:
  "currentInput (inputDigit d c) = (if currentInput c = ''0'' then d else currentInput c @ d)"
  by (simp add: inputDigit_def)

lemma inputDigits_append:
  "set ds \<subseteq> digitKeys \<Longrightarrow> currentInput c \<noteq> ''0'' \<Longrightarrow> currentInput c \<noteq> [] \<Longrightarrow>
     currentInput (run (map InputDigit ds) c) = currentInput c @ concat ds"
proof (induction ds arbitrary: c)
  case Nil
  then show ?case by simp
next
  case (Cons d ds)
  from Cons.prems(1) obtain ch where d: "d = [ch]" using digitKeys_single [of d] by auto
  have ci: "currentInput (inputDigit d c) = currentInput c @ d"
    using Cons.prems(2) by (simp add: inputDigit_input)
  then have "currentInput (inputDigit d c) \<noteq> ''0''" "currentInput (inputDigit d c) \<noteq> []"
    using Cons.prems(3) by (cases "currentInput c"; simp add: d)+
  with Cons.IH [of "inputDigit d c"] Cons.prems(1) show ?case
    by (simp add: run_Cons ci)
qed

lemma inputDigits_concat:
  assumes "ds \<noteq> []" "set ds \<subseteq> digitKeys" "hd ds \<noteq> ''0''"
  shows "currentInput (run (map InputDigit ds) constructor) = concat ds"
proof -
  obtain d ds' where ds: "ds = d # ds'" using assms(1) by (cases ds) auto
  with assms have d: "d \<in> digitKeys" "d \<noteq> ''0''" and ds': "set ds' \<subseteq> digitKeys" by simp_all
  obtain ch where ch: "d = [ch]" using digitKeys_single [OF d(1)] by auto
  have ci: "currentInput (inputDigit d constructor) = d" by (simp add: inputDigit_input)
  have ne: "currentInput (inputDigit d constructor) \<noteq> ''0''"
    "currentInput (inputDigit d constructor) \<noteq> []"
    using d(2) ch by (simp_all add: inputDigit_input)
  have "currentInput (run (map InputDigit ds') (inputDigit d constructor))
          = currentInput (inputDigit d constructor) @ concat ds'"
    using ds' ne by (rule inputDigits_append)
  then show ?thesis by (simp add: ds run_Cons ci)
qed

lemma concat_digitKeys:
  assumes "ds \<noteq> []" "set ds \<subseteq> digitKeys" "hd ds \<noteq> ''0''"
  shows "concat ds \<noteq> []" "\<forall>c\<in>set (concat ds). isDigit c" "hd (concat ds) \<noteq> CHR ''0''"
    "length (concat ds) = length ds"
proof -
  obtain d ds' where ds: "ds = d # ds'" using assms(1) by (cases ds) auto
  with assms have d: "d \<in> digitKeys" "d \<noteq> ''0''" by simp_all
  obtain ch where ch: "d = [ch]" using digitKeys_single [OF d(1)] by auto
  show "concat ds \<noteq> []" by (simp add: ds ch)
  show "hd (concat ds) \<noteq> CHR ''0''" using d(2) by (simp add: ds ch)
  show "\<forall>c\<in>set (concat ds). isDigit c"
    using assms(2) digitKeys_single by fastforce
  show "length (concat ds) = length ds"
    using assms(2)
  proof (induction ds)
    case Nil
    then show ?case by simp
  next
    case (Cons a ds)
    then obtain c where "a = [c]" using digitKeys_single [of a] by auto
    with Cons show ?case by simp
  qed
qed

text \<open>
  C6.  Let \<open>d\<^sub>1 \<dots> d\<^sub>n\<close> be digits, \<open>n \<ge> 1\<close>, the first not \<^verbatim>\<open>0\<close>.  From the initial state,
  \<open>inputDigit d\<^sub>1\<close>, \<dots>, \<open>inputDigit d\<^sub>n\<close> leave \<open>currentInput\<close> equal to the concatenation
  \<open>d\<^sub>1 \<dots> d\<^sub>n\<close>; for \<open>n \<le> 15\<close> the display shows the same digits, the number without
  superfluous zeros; and \<open>inputDigit\<close> replaces \<open>currentInput\<close> exactly when it is \<^verbatim>\<open>0\<close> and
  appends otherwise.
\<close>

theorem digits_entered_and_displayed:
  assumes "ds \<noteq> []" and "set ds \<subseteq> digitKeys" and "hd ds \<noteq> ''0''"
  shows "currentInput (run (map InputDigit ds) constructor) = concat ds \<and>
         (length ds \<le> 15 \<longrightarrow> textContent (run (map InputDigit ds) constructor) = concat ds) \<and>
         currentInput (inputDigit d c) = (if currentInput c = ''0'' then d else currentInput c @ d)"
proof -
  have ci: "currentInput (run (map InputDigit ds) constructor) = concat ds"
    using assms by (rule inputDigits_concat)
  have tc: "textContent (run (map InputDigit ds) constructor) = formatDisplay (concat ds)"
    using display_run [OF display_constructor, of "map InputDigit ds"] by (simp add: ci)
  have "formatDisplay (concat ds) = concat ds" if "length ds \<le> 15"
    using concat_digitKeys [OF assms] that by (intro formatDisplay_digits) simp_all
  then show ?thesis by (simp add: ci tc inputDigit_input)
qed

theorem digits_entered_and_displayed_witness:
  "[''4'', ''0'', ''2''] \<noteq> [] \<and> set [''4'', ''0'', ''2''] \<subseteq> digitKeys \<and>
   hd [''4'', ''0'', ''2''] \<noteq> ''0'' \<and>
   currentInput (run (map InputDigit [''4'', ''0'', ''2'']) constructor) = ''402'' \<and>
   textContent (run (map InputDigit [''4'', ''0'', ''2'']) constructor) = ''402''"
proof -
  have k: "set [''4'', ''0'', ''2''] \<subseteq> digitKeys" by (simp add: digitKeys_def)
  show ?thesis
    using k digits_entered_and_displayed [of "[''4'', ''0'', ''2'']"] by simp
qed

text \<open>
  Sixteen digits: \<open>currentInput\<close> holds the digits entered, and the display shows the nearest
  binary64 value, which is another number.
\<close>

theorem sixteen_digits_displayed_wrong:
  "currentInput (run (map InputDigit [''9'', ''0'', ''0'', ''7'', ''1'', ''9'', ''9'', ''2'',
      ''5'', ''4'', ''7'', ''4'', ''0'', ''9'', ''9'', ''3'']) constructor) = ''9007199254740993'' \<and>
   textContent (run (map InputDigit [''9'', ''0'', ''0'', ''7'', ''1'', ''9'', ''9'', ''2'',
      ''5'', ''4'', ''7'', ''4'', ''0'', ''9'', ''9'', ''3'']) constructor) = ''9007199254740992''"
proof -
  have k: "set [''9'', ''0'', ''0'', ''7'', ''1'', ''9'', ''9'', ''2'',
      ''5'', ''4'', ''7'', ''4'', ''0'', ''9'', ''9'', ''3''] \<subseteq> digitKeys"
    by (simp add: digitKeys_def)
  have ci: "currentInput (run (map InputDigit [''9'', ''0'', ''0'', ''7'', ''1'', ''9'', ''9'', ''2'',
      ''5'', ''4'', ''7'', ''4'', ''0'', ''9'', ''9'', ''3'']) constructor) = ''9007199254740993''"
    using inputDigits_concat [OF _ k] by simp
  have f: "formatDisplay ''9007199254740993'' = ''9007199254740992''"
    by code_simp
  show ?thesis
    using display_run [OF display_constructor, of "map InputDigit [''9'', ''0'', ''0'', ''7'', ''1'',
      ''9'', ''9'', ''2'', ''5'', ''4'', ''7'', ''4'', ''0'', ''9'', ''9'', ''3'']"]
    by (simp only: ci f simp_thms)
qed

section \<open>The form of \<open>currentInput\<close>\<close>

lemma hd_digitsOf: "isDigit (hd (digitsOf n))"
proof (induction n rule: digitsOf.induct)
  case (1 n)
  show ?case
  proof (cases "n < 10")
    case True
    have "isDigit (digitChar n)"
    proof (cases "0 \<le> n")
      case True
      then show ?thesis using \<open>n < 10\<close> by (simp add: digitChar_isDigit)
    next
      case False
      then show ?thesis by (simp add: digitChar_def isDigit_def)
    qed
    then show ?thesis using True by (subst digitsOf.simps) simp
  next
    case False
    then show ?thesis using 1 by (subst digitsOf.simps) simp
  qed
qed

lemma formatDigits_hd: "formatDigits c \<noteq> [] \<and> isDigit (hd (formatDigits c))"
proof -
  obtain s e where c: "c = (s, e)" by (cases c)
  have d: "digitsOf s \<noteq> []" "isDigit (hd (digitsOf s))" by (simp_all add: hd_digitsOf)
  then obtain x xs where ds: "digitsOf s = x # xs" and x: "isDigit x"
    by (cases "digitsOf s") auto
  show ?thesis
    using x by (auto simp: c formatDigits_def Let_def ds nat_le_iff take_Cons' )
qed

lemma wellSigned_numberToString: "wellSigned (numberToString x)"
proof (cases x)
  case (Finite neg m e)
  obtain y ys where f: "formatDigits (shortestDigits m e) = y # ys" and y: "isDigit y"
    using formatDigits_hd [of "shortestDigits m e"]
    by (cases "formatDigits (shortestDigits m e)") auto
  from isDigit_neq [OF y] show ?thesis
    by (simp add: Finite wellSigned_def signPrefix_def f)
qed (simp_all add: wellSigned_def)

lemma wellSigned_append: "wellSigned s \<Longrightarrow> wellSigned (s @ t)"
  by (cases s; cases "tl s") (auto simp: wellSigned_def)

lemma wellSigned_digit: "d \<in> digitKeys \<Longrightarrow> wellSigned d"
  by (auto simp: digitKeys_def wellSigned_def)

lemma wellSigned_zero [simp]: "wellSigned ''0''"
  by (simp add: wellSigned_def)

lemma startsWith_minus: "startsWith s ''-'' \<longleftrightarrow> s \<noteq> [] \<and> hd s = CHR ''-''"
  by (cases s) (simp_all add: startsWith_def)

lemma wellSigned_toggle:
  "wellSigned s \<Longrightarrow>
     wellSigned (if startsWith s ''-'' then drop 1 s else if s \<noteq> ''0'' then ''-'' @ s else s)"
  by (cases s; cases "tl s") (auto simp: wellSigned_def startsWith_minus)

lemma wellSigned_step:
  assumes "wellSigned (currentInput c)" "validAction a"
  shows "wellSigned (currentInput (step c a))"
proof (cases a)
  case (InputDigit d)
  then show ?thesis using assms
    by (simp add: inputDigit_input wellSigned_digit wellSigned_append)
next
  case InputDecimal
  then show ?thesis using assms by (simp add: inputDecimal_def wellSigned_append)
next
  case ToggleSign
  have "currentInput (toggleSign c) =
      (if startsWith (currentInput c) ''-'' then drop 1 (currentInput c)
       else if currentInput c \<noteq> ''0'' then ''-'' @ currentInput c else currentInput c)"
    by (simp add: toggleSign_def)
  then show ?thesis using wellSigned_toggle [OF assms(1)] ToggleSign by simp
next
  case CalculateResult
  then show ?thesis using assms
    by (simp add: calculateResult_def Let_def wellSigned_numberToString split: option.splits)
qed (simp_all add: clearEntry_def allClear_def setOperator_fields calculatePercentage_def Let_def
      wellSigned_numberToString)

lemma wellSigned_run:
  "wellSigned (currentInput c) \<Longrightarrow> list_all validAction as \<Longrightarrow>
     wellSigned (currentInput (run as c))"
  by (induction as arbitrary: c) (simp_all add: run_Cons wellSigned_step)

lemma operandGrammar_intro:
  assumes "ip \<noteq> []" "\<forall>c\<in>set ip. isDigit c"
    and "rest = [] \<or> (\<exists>fp. rest = CHR ''.'' # fp \<and> (\<forall>c\<in>set fp. isDigit c))"
  shows "operandGrammar (signPrefix neg @ ip @ rest)"
proof -
  obtain x xs where ip: "ip = x # xs" using assms(1) by (cases ip) auto
  with assms(2) have x: "isDigit x" by simp
  have t: "(if signPrefix neg @ ip @ rest \<noteq> [] \<and> hd (signPrefix neg @ ip @ rest) = CHR ''-''
            then tl (signPrefix neg @ ip @ rest) else signPrefix neg @ ip @ rest) = ip @ rest"
    using isDigit_neq [OF x] by (cases neg) (simp_all add: signPrefix_def ip)
  have tail: "rest = [] \<or> \<not> isDigit (hd rest)" using assms(3) by auto
  have tw: "takeWhile isDigit (ip @ rest) = ip" using assms(2) tail by (rule takeWhile_digits_tail)
  have dw: "dropWhile isDigit (ip @ rest) = rest" using assms(2) tail by (rule dropWhile_digits_tail)
  show ?thesis
    unfolding operandGrammar_def t Let_def tw dw
    using assms(1,3) by (auto simp: list_all_iff)
qed

lemma operandGrammar_elim:
  assumes "operandGrammar s"
  obtains neg ip rest where "s = signPrefix neg @ ip @ rest" "ip \<noteq> []" "\<forall>c\<in>set ip. isDigit c"
    "rest = [] \<or> (\<exists>fp. rest = CHR ''.'' # fp \<and> (\<forall>c\<in>set fp. isDigit c))"
    "neg \<longleftrightarrow> startsWith s ''-''"
proof -
  define neg where "neg \<longleftrightarrow> s \<noteq> [] \<and> hd s = CHR ''-''"
  define t where "t = (if s \<noteq> [] \<and> hd s = CHR ''-'' then tl s else s)"
  define ip where "ip = takeWhile isDigit t"
  define rest where "rest = dropWhile isDigit t"
  have s: "s = signPrefix neg @ ip @ rest"
    by (cases s) (auto simp: neg_def t_def ip_def rest_def signPrefix_def)
  have "operandGrammar s =
      (ip \<noteq> [] \<and> (rest = [] \<or> (hd rest = CHR ''.'' \<and> list_all isDigit (tl rest))))"
    unfolding operandGrammar_def Let_def ip_def rest_def t_def ..
  with assms have g: "ip \<noteq> []" "rest = [] \<or> (hd rest = CHR ''.'' \<and> list_all isDigit (tl rest))"
    by blast+
  have d: "\<forall>c\<in>set ip. isDigit c" by (auto simp: ip_def dest: set_takeWhileD)
  have r: "rest = [] \<or> (\<exists>fp. rest = CHR ''.'' # fp \<and> (\<forall>c\<in>set fp. isDigit c))"
    using g(2) by (cases rest) (auto simp: list_all_iff)
  have n: "neg \<longleftrightarrow> startsWith s ''-''" by (simp add: neg_def startsWith_minus)
  from s g(1) d r n show ?thesis by (rule that)
qed

lemma operandGrammar_zero [simp]: "operandGrammar ''0''"
  by (simp add: operandGrammar_def isDigit_def)

lemma operandGrammar_digit:
  assumes "operandGrammar s" "isDigit ch"
  shows "operandGrammar (s @ [ch])"
proof -
  from assms(1) obtain neg ip rest where s: "s = signPrefix neg @ ip @ rest" and ip: "ip \<noteq> []"
    "\<forall>c\<in>set ip. isDigit c"
    and rest: "rest = [] \<or> (\<exists>fp. rest = CHR ''.'' # fp \<and> (\<forall>c\<in>set fp. isDigit c))"
    by (rule operandGrammar_elim)
  show ?thesis
  proof (cases "rest = []")
    case True
    have "operandGrammar (signPrefix neg @ (ip @ [ch]) @ [])"
      using ip assms(2) by (intro operandGrammar_intro) auto
    then show ?thesis by (simp add: s True)
  next
    case False
    with rest obtain fp where fp: "rest = CHR ''.'' # fp" "\<forall>c\<in>set fp. isDigit c" by auto
    have "operandGrammar (signPrefix neg @ ip @ (CHR ''.'' # (fp @ [ch])))"
      using ip fp(2) assms(2) by (intro operandGrammar_intro) auto
    then show ?thesis by (simp add: s fp(1))
  qed
qed

lemma operandGrammar_decimal:
  assumes "operandGrammar s" "\<not> stringIncludes s CHR ''.''"
  shows "operandGrammar (s @ ''.'')"
proof -
  from assms(1) obtain neg ip rest where s: "s = signPrefix neg @ ip @ rest" and ip: "ip \<noteq> []"
    "\<forall>c\<in>set ip. isDigit c"
    and rest: "rest = [] \<or> (\<exists>fp. rest = CHR ''.'' # fp \<and> (\<forall>c\<in>set fp. isDigit c))"
    by (rule operandGrammar_elim)
  have "rest = []" using rest assms(2) by (auto simp: s stringIncludes_def)
  moreover have "operandGrammar (signPrefix neg @ ip @ (CHR ''.'' # []))"
    using ip by (intro operandGrammar_intro) auto
  ultimately show ?thesis by (simp add: s)
qed

lemma operandGrammar_toggle:
  assumes "operandGrammar s"
  shows "operandGrammar (if startsWith s ''-'' then drop 1 s else if s \<noteq> ''0'' then ''-'' @ s else s)"
proof -
  from assms(1) obtain neg ip rest where s: "s = signPrefix neg @ ip @ rest" and ip: "ip \<noteq> []"
    "\<forall>c\<in>set ip. isDigit c"
    and rest: "rest = [] \<or> (\<exists>fp. rest = CHR ''.'' # fp \<and> (\<forall>c\<in>set fp. isDigit c))"
    and neg: "neg \<longleftrightarrow> startsWith s ''-''"
    by (rule operandGrammar_elim)
  have a: "operandGrammar (signPrefix False @ ip @ rest)" and b: "operandGrammar (signPrefix True @ ip @ rest)"
    using ip rest by (intro operandGrammar_intro; simp)+
  show ?thesis
  proof (cases neg)
    case True
    then have "drop 1 s = signPrefix False @ ip @ rest" by (simp add: s signPrefix_def)
    then show ?thesis using True neg a by simp
  next
    case False
    then have "''-'' @ s = signPrefix True @ ip @ rest" by (simp add: s signPrefix_def)
    then show ?thesis using False neg b assms by simp
  qed
qed

lemma operandGrammar_step:
  assumes "operandGrammar (currentInput c)" "validAction a"
    "a \<noteq> CalculateResult" "a \<noteq> CalculatePercentage"
  shows "operandGrammar (currentInput (step c a))"
proof (cases a)
  case (InputDigit d)
  with assms(2) obtain ch where d: "d = [ch]" "isDigit ch" using digitKeys_single [of d] by auto
  have "operandGrammar [ch]"
    using operandGrammar_intro [of "[ch]" "[]" False] d(2) by (simp add: signPrefix_def)
  then show ?thesis using InputDigit assms(1) d
    by (simp add: inputDigit_input operandGrammar_digit)
next
  case InputDecimal
  then show ?thesis using assms(1) by (simp add: inputDecimal_def operandGrammar_decimal)
next
  case ToggleSign
  have "currentInput (toggleSign c) =
      (if startsWith (currentInput c) ''-'' then drop 1 (currentInput c)
       else if currentInput c \<noteq> ''0'' then ''-'' @ currentInput c else currentInput c)"
    by (simp add: toggleSign_def)
  then show ?thesis using operandGrammar_toggle [OF assms(1)] ToggleSign by simp
qed (use assms in \<open>simp_all add: clearEntry_def allClear_def setOperator_fields\<close>)

lemma operandGrammar_run:
  "operandGrammar (currentInput c) \<Longrightarrow> list_all validAction as \<Longrightarrow>
   CalculateResult \<notin> set as \<Longrightarrow> CalculatePercentage \<notin> set as \<Longrightarrow>
     operandGrammar (currentInput (run as c))"
proof (induction as arbitrary: c)
  case Nil
  then show ?case by simp
next
  case (Cons a as)
  then have "operandGrammar (currentInput (step c a))"
    by (intro operandGrammar_step) auto
  with Cons show ?case by (simp add: run_Cons)
qed

lemma calculatePercentage_input:
  "currentInput (calculatePercentage c)
     = numberToString (numDiv (parseFloat (currentInput c)) (numberLiteral 100))"
  by (simp add: calculatePercentage_def Let_def)

section \<open>The decimal point\<close>

lemma digitsOf_all_digits: "c \<in> set (digitsOf n) \<Longrightarrow> isDigit c"
proof (cases "0 \<le> n")
  case True
  assume "c \<in> set (digitsOf n)"
  with True show ?thesis by (rule digitsOf_digits)
next
  case False
  assume c: "c \<in> set (digitsOf n)"
  from False have "digitsOf n = [digitChar n]" by (subst digitsOf.simps) simp
  moreover from False have "digitChar n = CHR ''0''" by (simp add: digitChar_def)
  ultimately show ?thesis using c by simp
qed

lemma no_dot_in_digits: "\<forall>c\<in>set ds. isDigit c \<Longrightarrow> count_list ds CHR ''.'' = 0"
  by (auto simp: count_list_0_iff)

lemma no_dot_digitsOf [simp]: "count_list (digitsOf n) CHR ''.'' = 0"
  by (rule no_dot_in_digits) (auto intro: digitsOf_all_digits)

lemma no_dot_take [simp]: "count_list (take k (digitsOf n)) CHR ''.'' = 0"
  by (rule no_dot_in_digits) (auto intro: digitsOf_all_digits dest: in_set_takeD)

lemma no_dot_drop [simp]: "count_list (drop k (digitsOf n)) CHR ''.'' = 0"
  by (rule no_dot_in_digits) (auto intro: digitsOf_all_digits dest: in_set_dropD)

lemma no_dot_zeros [simp]: "count_list (replicate k CHR ''0'') CHR ''.'' = 0"
  by (simp add: count_list_0_iff)

lemma one_dot_formatDigits: "count_list (formatDigits c) CHR ''.'' \<le> 1"
  by (cases c) (simp add: formatDigits_def Let_def)

lemma one_dot_numberToString [simp]: "count_list (numberToString x) CHR ''.'' \<le> Suc 0"
  using one_dot_formatDigits by (cases x) (simp_all add: signPrefix_def)

lemma one_dot_step:
  assumes "count_list (currentInput c) CHR ''.'' \<le> 1" "validAction a"
  shows "count_list (currentInput (step c a)) CHR ''.'' \<le> 1"
proof (cases a)
  case (InputDigit d)
  with assms(2) obtain ch where "d = [ch]" "isDigit ch" using digitKeys_single [of d] by auto
  then show ?thesis using InputDigit assms(1) isDigit_neq [of ch]
    by (simp add: inputDigit_input)
next
  case InputDecimal
  then show ?thesis using assms(1)
    by (simp add: inputDecimal_def stringIncludes_def count_list_0_iff)
next
  case ToggleSign
  then show ?thesis using assms(1)
    by (cases "currentInput c") (auto simp: toggleSign_def startsWith_minus split: if_splits)
next
  case CalculateResult
  then show ?thesis using assms(1)
    by (simp add: calculateResult_def Let_def split: option.splits)
next
  case CalculatePercentage
  then show ?thesis by (simp add: calculatePercentage_input)
qed (simp_all add: clearEntry_def allClear_def setOperator_fields)

lemma one_dot_run:
  "count_list (currentInput c) CHR ''.'' \<le> 1 \<Longrightarrow> list_all validAction as \<Longrightarrow>
     count_list (currentInput (run as c)) CHR ''.'' \<le> 1"
proof (induction as arbitrary: c)
  case Nil
  then show ?case by simp
next
  case (Cons a as)
  from Cons.prems have "count_list (currentInput (step c a)) CHR ''.'' \<le> 1"
    by (intro one_dot_step) simp_all
  moreover from Cons.prems have "list_all validAction as" by simp
  ultimately show ?case unfolding run_Cons by (rule Cons.IH)
qed

lemma inputDecimal_count:
  "count_list (currentInput c) CHR ''.'' \<le> 1 \<Longrightarrow>
     count_list (currentInput (inputDecimal c)) CHR ''.'' = 1"
proof (cases "CHR ''.'' \<in> set (currentInput c)")
  case True
  assume le: "count_list (currentInput c) CHR ''.'' \<le> 1"
  from True have "count_list (currentInput c) CHR ''.'' \<noteq> 0" by (simp add: count_list_0_iff)
  with le have "count_list (currentInput c) CHR ''.'' = 1" by linarith
  then show ?thesis using True by (simp add: inputDecimal_def stringIncludes_def)
next
  case False
  then have "count_list (currentInput c) CHR ''.'' = 0" by (simp add: count_list_0_iff)
  then show ?thesis using False by (simp add: inputDecimal_def stringIncludes_def)
qed

text \<open>
  C7.  \<open>inputDecimal\<close> appends one decimal point to a \<open>currentInput\<close> without one and leaves a
  state whose \<open>currentInput\<close> has one unchanged; so a second call in a row changes nothing.
  Two calls in a row leave exactly one decimal point in \<open>currentInput\<close>, both from a
  \<open>currentInput\<close> without one and in every state reached from the initial state.
\<close>

theorem inputDecimal_once:
  "(\<not> stringIncludes (currentInput c) CHR ''.'' \<longrightarrow>
      currentInput (inputDecimal c) = currentInput c @ ''.'' \<and>
      count_list (currentInput (inputDecimal (inputDecimal c))) CHR ''.'' = 1) \<and>
   (stringIncludes (currentInput c) CHR ''.'' \<longrightarrow> inputDecimal c = c) \<and>
   inputDecimal (inputDecimal c) = inputDecimal c \<and>
   (list_all validAction as \<longrightarrow>
      count_list (currentInput (inputDecimal (inputDecimal (run as constructor)))) CHR ''.'' = 1)"
proof -
  have a: "(\<not> stringIncludes (currentInput c) CHR ''.'' \<longrightarrow>
      currentInput (inputDecimal c) = currentInput c @ ''.'' \<and>
      count_list (currentInput (inputDecimal (inputDecimal c))) CHR ''.'' = 1) \<and>
   (stringIncludes (currentInput c) CHR ''.'' \<longrightarrow> inputDecimal c = c) \<and>
   inputDecimal (inputDecimal c) = inputDecimal c"
    by (auto simp: inputDecimal_def stringIncludes_def count_list_0_iff)
  have b: "count_list (currentInput (inputDecimal (inputDecimal (run as constructor)))) CHR ''.'' = 1"
    if "list_all validAction as"
  proof -
    have "count_list (currentInput (run as constructor)) CHR ''.'' \<le> 1"
      using that by (intro one_dot_run) simp_all
    then have "count_list (currentInput (inputDecimal (run as constructor))) CHR ''.'' = 1"
      by (rule inputDecimal_count)
    then show ?thesis by (intro inputDecimal_count) simp
  qed
  from a b show ?thesis by blast
qed

theorem inputDecimal_once_witness:
  "\<not> stringIncludes (currentInput constructor) CHR ''.'' \<and>
   currentInput (inputDecimal constructor) = ''0.'' \<and>
   stringIncludes (currentInput (inputDecimal constructor)) CHR ''.'' \<and>
   inputDecimal (inputDecimal constructor) = inputDecimal constructor \<and>
   list_all validAction [InputDigit ''2'', InputDecimal, InputDigit ''5''] \<and>
   count_list (currentInput (inputDecimal (inputDecimal
     (run [InputDigit ''2'', InputDecimal, InputDigit ''5''] constructor)))) CHR ''.'' = 1"
proof -
  have v: "list_all validAction [InputDigit ''2'', InputDecimal, InputDigit ''5'']"
    by (simp add: digitKeys_def)
  have n: "\<not> stringIncludes (currentInput constructor) CHR ''.''"
    by (simp add: stringIncludes_def)
  from inputDecimal_once [of constructor "[InputDigit ''2'', InputDecimal, InputDigit ''5'']"] n v
  have "currentInput (inputDecimal constructor) = currentInput constructor @ ''.''"
    and "inputDecimal (inputDecimal constructor) = inputDecimal constructor"
    and "count_list (currentInput (inputDecimal (inputDecimal
     (run [InputDigit ''2'', InputDecimal, InputDigit ''5''] constructor)))) CHR ''.'' = 1"
    by blast+
  then show ?thesis using n v by (simp add: stringIncludes_def)
qed

section \<open>The strings that \<open>calculateResult\<close> and \<open>calculatePercentage\<close> store\<close>

lemma formatDigits_plain:
  assumes "CHR ''e'' \<notin> set (formatDigits c)"
  shows "operandGrammar (signPrefix neg @ formatDigits c)"
proof -
  obtain s t where c: "c = (s, t)" by (cases c)
  define ds where "ds = digitsOf s"
  define n where "n = t + int (length ds)"
  have ne: "ds \<noteq> []" and dg: "\<forall>ch\<in>set ds. isDigit ch"
    by (auto simp: ds_def digitsOf_all_digits)
  have plain: "- 5 \<le> n \<and> n \<le> 21"
  proof (rule ccontr)
    assume "\<not> (- 5 \<le> n \<and> n \<le> 21)"
    then have "CHR ''e'' \<in> set (formatDigits c)"
      by (auto simp: c formatDigits_def Let_def ds_def [symmetric] n_def [symmetric])
    with assms show False by simp
  qed
  consider (int) "int (length ds) \<le> n" | (frac) "n < int (length ds)" "0 < n" | (small) "n \<le> 0"
    by linarith
  then show ?thesis
  proof cases
    case int
    have f: "formatDigits c = (ds @ replicate (nat (n - int (length ds))) CHR ''0'') @ []"
      using plain int by (simp add: c formatDigits_def Let_def ds_def [symmetric] n_def [symmetric])
    show ?thesis unfolding f using ne dg by (intro operandGrammar_intro) auto
  next
    case frac
    have f: "formatDigits c = take (nat n) ds @ (CHR ''.'' # drop (nat n) ds)"
      using plain frac by (simp add: c formatDigits_def Let_def ds_def [symmetric] n_def [symmetric])
    have "take (nat n) ds \<noteq> []" using frac(2) ne by simp
    moreover have "\<forall>ch\<in>set (take (nat n) ds). isDigit ch" using dg by (auto dest: in_set_takeD)
    moreover have "\<forall>ch\<in>set (drop (nat n) ds). isDigit ch" using dg by (auto dest: in_set_dropD)
    ultimately show ?thesis unfolding f by (intro operandGrammar_intro) auto
  next
    case small
    have ne': "\<not> int (length ds) \<le> n" "\<not> 0 < n" using ne small by (cases ds; simp)+
    have f: "formatDigits c = ''0'' @ (CHR ''.'' # (replicate (nat (- n)) CHR ''0'' @ ds))"
      using plain small ne'
      by (simp add: c formatDigits_def Let_def ds_def [symmetric] n_def [symmetric])
    show ?thesis unfolding f using dg by (intro operandGrammar_intro) auto
  qed
qed

lemma operandGrammar_numberToString:
  assumes "plainNumberString (numberToString x)"
  shows "operandGrammar (numberToString x)"
proof (cases x)
  case (Finite neg m e)
  show ?thesis
  proof (cases "m = 0")
    case True
    then show ?thesis by (simp add: Finite)
  next
    case False
    with assms have "CHR ''e'' \<notin> set (formatDigits (shortestDigits m e))"
      by (simp add: Finite plainNumberString_def)
    then show ?thesis using False by (simp add: Finite formatDigits_plain)
  qed
qed (use assms in \<open>auto simp: plainNumberString_def split: if_splits\<close>)

lemma operandGrammar_plain:
  assumes "operandGrammar s"
  shows "plainNumberString s"
proof -
  from assms obtain neg ip rest where s: "s = signPrefix neg @ ip @ rest" and ip: "ip \<noteq> []"
    "\<forall>c\<in>set ip. isDigit c"
    and rest: "rest = [] \<or> (\<exists>fp. rest = CHR ''.'' # fp \<and> (\<forall>c\<in>set fp. isDigit c))"
    by (rule operandGrammar_elim)
  obtain x xs where x: "ip = x # xs" "isDigit x" using ip by (cases ip) auto
  have e: "\<not> isDigit CHR ''e''" "\<not> isDigit CHR ''N''" "\<not> isDigit CHR ''I''"
    by (simp_all add: isDigit_def)
  have nd: "CHR ''e'' \<notin> set ys" if "\<forall>c\<in>set ys. isDigit c" for ys
    using that e(1) by blast
  have "CHR ''e'' \<notin> set s"
    using nd [OF ip(2)] rest nd by (cases neg) (auto simp: s signPrefix_def)
  moreover have "s \<noteq> ''NaN''" "s \<noteq> ''Infinity''" "s \<noteq> ''-Infinity''"
    using x e by (cases neg; auto simp: s signPrefix_def)+
  ultimately show ?thesis by (simp add: plainNumberString_def)
qed

lemma operandGrammar_step_plain:
  assumes "operandGrammar (currentInput c)" "validAction a"
    "a = CalculateResult \<or> a = CalculatePercentage \<longrightarrow> plainNumberString (currentInput (step c a))"
  shows "operandGrammar (currentInput (step c a))"
proof (cases "a = CalculateResult \<or> a = CalculatePercentage")
  case False
  with assms(1,2) show ?thesis by (intro operandGrammar_step) simp_all
next
  case True
  with assms(3) have p: "plainNumberString (currentInput (step c a))" by simp
  from True show ?thesis
  proof
    assume a: "a = CalculateResult"
    show ?thesis
    proof (cases "operator c = None \<or> previousValue c = None")
      case True
      then show ?thesis using assms(1) by (simp add: a calculateResult_None)
    next
      case False
      then obtain op q where o: "operator c = Some op" "previousValue c = Some q" by auto
      from p show ?thesis
        unfolding a step.simps calculateResult_input [OF o]
        by (rule operandGrammar_numberToString)
    qed
  next
    assume a: "a = CalculatePercentage"
    from p show ?thesis
      unfolding a step.simps calculatePercentage_input
      by (rule operandGrammar_numberToString)
  qed
qed

lemma operandGrammar_run_plain:
  "operandGrammar (currentInput c) \<Longrightarrow> list_all validAction as \<Longrightarrow> plainResults as c \<Longrightarrow>
     operandGrammar (currentInput (run as c))"
proof (induction as arbitrary: c)
  case Nil
  then show ?case by simp
next
  case (Cons a as)
  then have "operandGrammar (currentInput (step c a))"
    by (intro operandGrammar_step_plain) simp_all
  with Cons show ?case by (simp add: run_Cons)
qed

lemma plainResults_entry:
  "CalculateResult \<notin> set as \<Longrightarrow> CalculatePercentage \<notin> set as \<Longrightarrow> plainResults as c"
  by (induction as arbitrary: c) auto

lemma digitsVal_power10: "digitsVal (CHR ''1'' # replicate k CHR ''0'') = 10 ^ k"
proof -
  have one: "digitsVal ''1'' = 1" by (simp add: digitsVal_def digitVal_def)
  have "digitsVal (''1'' @ replicate k CHR ''0'') = digitsVal ''1'' * 10 ^ k"
    by (simp only: digitsVal_append digitsVal_zeros length_replicate add_0_right)
  then show ?thesis by (simp add: one)
qed

lemma roundFrac_overflow: "roundFrac False (10 ^ 309) 1 = Infinity False"
  by code_simp

lemma concat_replicate_single: "concat (replicate k [x]) = replicate k x"
  by (induction k) simp_all

lemma overflow_entered:
  "currentInput (run (map InputDigit (''1'' # replicate 309 ''0'')) constructor)
     = CHR ''1'' # replicate 309 CHR ''0''"
proof -
  have k: "set (''1'' # replicate 309 ''0'') \<subseteq> digitKeys" by (auto simp: digitKeys_def)
  show ?thesis
    using inputDigits_concat [OF _ k] by (simp add: concat_replicate_single)
qed

lemma overflow_pending:
  "operator (run (map InputDigit (''1'' # replicate 309 ''0'')) constructor) = None"
  "previousValue (run (map InputDigit (''1'' # replicate 309 ''0'')) constructor) = None"
proof -
  have "list_all entryAction (map InputDigit (''1'' # replicate 309 ''0''))"
    by (auto simp: list_all_iff digitKeys_def)
  from entry_run_pending [OF this, of constructor]
  show "operator (run (map InputDigit (''1'' # replicate 309 ''0'')) constructor) = None"
    "previousValue (run (map InputDigit (''1'' # replicate 309 ''0'')) constructor) = None"
    by simp_all
qed

lemma overflow_valid: "list_all validAction (map InputDigit (''1'' # replicate 309 ''0''))"
  by (auto simp: list_all_iff digitKeys_def)

lemma roundDec_zero_exp: "roundDec neg s 0 = roundFrac neg s 1"
  by (simp add: roundDec_def mkFrac_def)

lemma parseFloat_overflow: "parseFloat (CHR ''1'' # replicate 309 CHR ''0'') = Infinity False"
proof -
  have "parseFloat (signPrefix False @ (CHR ''1'' # replicate 309 CHR ''0'') @ [])
      = roundDec False (digitsVal (CHR ''1'' # replicate 309 CHR ''0'')) (exponentPart [])"
    by (rule parseFloat_nodot) (auto simp: isDigit_def)
  from this [unfolded signPrefix_def if_False append_Nil append_Nil2 digitsVal_power10
      exponentPart_Nil roundDec_zero_exp roundFrac_overflow]
  show ?thesis .
qed

lemma overflow_setOperator:
  "currentInput (setOperator op (run (map InputDigit (''1'' # replicate 309 ''0'')) constructor))
     = ''0''"
  "operator (setOperator op (run (map InputDigit (''1'' # replicate 309 ''0'')) constructor))
     = Some op"
  "previousValue (setOperator op (run (map InputDigit (''1'' # replicate 309 ''0'')) constructor))
     = Some (Infinity False)"
proof -
  have t: "(if truthy (operator (run (map InputDigit (''1'' # replicate 309 ''0'')) constructor))
               \<and> previousValue (run (map InputDigit (''1'' # replicate 309 ''0'')) constructor) \<noteq> None
            then calculateResult (run (map InputDigit (''1'' # replicate 309 ''0'')) constructor)
            else run (map InputDigit (''1'' # replicate 309 ''0'')) constructor)
           = run (map InputDigit (''1'' # replicate 309 ''0'')) constructor"
    by (simp only: overflow_pending truthy.simps simp_thms if_False)
  show "currentInput (setOperator op (run (map InputDigit (''1'' # replicate 309 ''0'')) constructor))
     = ''0''"
    "operator (setOperator op (run (map InputDigit (''1'' # replicate 309 ''0'')) constructor))
     = Some op"
    by (simp_all only: setOperator_fields)
  show "previousValue (setOperator op (run (map InputDigit (''1'' # replicate 309 ''0'')) constructor))
     = Some (Infinity False)"
    by (simp only: setOperator_fields t overflow_entered parseFloat_overflow)
qed

text \<open>
  C3.  In every state reached from the initial state by actions with digit arguments \<^verbatim>\<open>0\<close> to
  \<^verbatim>\<open>9\<close> and operator arguments \<^verbatim>\<open>+\<close>, \<^verbatim>\<open>-\<close>, \<^verbatim>\<open>*\<close>, \<^verbatim>\<open>/\<close>, \<open>currentInput\<close> is not empty.  It is in
  the language \<^verbatim>\<open>-?\d+(\.\d*)?\<close> when each string stored on the way by \<open>calculateResult\<close>
  (\<^verbatim>\<open>result.toString()\<close>) or \<open>calculatePercentage\<close> (\<^verbatim>\<open>value.toString()\<close>) is the string of a
  finite number in plain decimal notation; the same holds from any state whose \<open>currentInput\<close>
  is in the language.  The condition holds of every sequence without these two actions, and
  every string of the language is plain, so a stored string is in the language exactly when it
  is plain.
\<close>

theorem currentInput_nonempty_and_grammar:
  assumes "list_all validAction as"
  shows "currentInput (run as constructor) \<noteq> [] \<and>
         (plainResults as constructor \<longrightarrow> operandGrammar (currentInput (run as constructor))) \<and>
         (operandGrammar (currentInput c) \<and> plainResults as c \<longrightarrow>
            operandGrammar (currentInput (run as c))) \<and>
         (CalculateResult \<notin> set as \<and> CalculatePercentage \<notin> set as \<longrightarrow> plainResults as c) \<and>
         (operandGrammar (numberToString x) \<longleftrightarrow> plainNumberString (numberToString x))"
proof -
  have "wellSigned (currentInput (run as constructor))"
    using assms by (intro wellSigned_run) simp_all
  then have "currentInput (run as constructor) \<noteq> []" by (simp add: wellSigned_def)
  moreover have "operandGrammar (currentInput (run as b))"
    if "operandGrammar (currentInput b)" "plainResults as b" for b
    using that(1) assms that(2) by (rule operandGrammar_run_plain)
  moreover have "operandGrammar (numberToString x) \<longleftrightarrow> plainNumberString (numberToString x)"
    using operandGrammar_plain operandGrammar_numberToString by blast
  ultimately show ?thesis by (simp add: plainResults_entry)
qed

theorem currentInput_nonempty_and_grammar_witness:
  "list_all validAction [InputDigit ''1'', SetOperator ''/'', InputDigit ''4'', CalculateResult,
      CalculatePercentage, ToggleSign] \<and>
   plainResults [InputDigit ''1'', SetOperator ''/'', InputDigit ''4'', CalculateResult,
      CalculatePercentage, ToggleSign] constructor \<and>
   currentInput (run [InputDigit ''1'', SetOperator ''/'', InputDigit ''4'', CalculateResult,
      CalculatePercentage, ToggleSign] constructor) = ''-0.0025'' \<and>
   operandGrammar (currentInput (run [InputDigit ''1'', SetOperator ''/'', InputDigit ''4'',
      CalculateResult, CalculatePercentage, ToggleSign] constructor)) \<and>
   operandGrammar (currentInput constructor) \<and>
   list_all validAction [InputDigit ''3'', InputDecimal, InputDigit ''5'', ToggleSign] \<and>
   CalculateResult \<notin> set [InputDigit ''3'', InputDecimal, InputDigit ''5'', ToggleSign] \<and>
   CalculatePercentage \<notin> set [InputDigit ''3'', InputDecimal, InputDigit ''5'', ToggleSign] \<and>
   plainResults [InputDigit ''3'', InputDecimal, InputDigit ''5'', ToggleSign] constructor \<and>
   currentInput (run [InputDigit ''3'', InputDecimal, InputDigit ''5'', ToggleSign] constructor)
     = ''-3.5'' \<and>
   operandGrammar
     (currentInput (run [InputDigit ''3'', InputDecimal, InputDigit ''5'', ToggleSign] constructor)) \<and>
   operandGrammar (numberToString (Finite False 0 (- 1074))) \<and>
   plainNumberString (numberToString (Finite False 0 (- 1074)))"
proof -
  have v: "list_all validAction [InputDigit ''1'', SetOperator ''/'', InputDigit ''4'',
      CalculateResult, CalculatePercentage, ToggleSign]"
    by (simp add: digitKeys_def operatorKeys_def)
  have f2: "currentInput (inputDigit ''4'' (setOperator ''/'' (inputDigit ''1'' constructor))) = ''4''"
    "operator (inputDigit ''4'' (setOperator ''/'' (inputDigit ''1'' constructor))) = Some ''/''"
    "previousValue (inputDigit ''4'' (setOperator ''/'' (inputDigit ''1'' constructor)))
       = Some (parseFloat ''1'')"
    by (simp_all add: inputDigit_def setOperator_fields)
  have q: "numberToString (applyOperator ''/'' (parseFloat ''1'') (parseFloat ''4'')) = ''0.25''"
    by code_simp
  have f3: "currentInput (calculateResult
      (inputDigit ''4'' (setOperator ''/'' (inputDigit ''1'' constructor)))) = ''0.25''"
    using calculateResult_input [OF f2(2,3)] by (simp only: f2(1) q)
  have p: "numberToString (numDiv (parseFloat ''0.25'') (numberLiteral 100)) = ''0.0025''"
    by code_simp
  have f4: "currentInput (calculatePercentage (calculateResult
      (inputDigit ''4'' (setOperator ''/'' (inputDigit ''1'' constructor))))) = ''0.0025''"
    by (simp only: calculatePercentage_input f3 p)
  have pl: "plainResults [InputDigit ''1'', SetOperator ''/'', InputDigit ''4'', CalculateResult,
      CalculatePercentage, ToggleSign] constructor"
    by (simp add: f3 f4 plainNumberString_def)
  have c: "currentInput (run [InputDigit ''1'', SetOperator ''/'', InputDigit ''4'',
      CalculateResult, CalculatePercentage, ToggleSign] constructor) = ''-0.0025''"
    by (simp add: run_Cons toggleSign_def startsWith_def f4)
  have g: "operandGrammar (currentInput constructor)" by simp
  from currentInput_nonempty_and_grammar [OF v, of constructor] pl g
  have "operandGrammar (currentInput (run [InputDigit ''1'', SetOperator ''/'', InputDigit ''4'',
      CalculateResult, CalculatePercentage, ToggleSign] constructor))"
    by blast
  note first = v pl c g this
  have v2: "list_all validAction [InputDigit ''3'', InputDecimal, InputDigit ''5'', ToggleSign]"
    by (simp add: digitKeys_def)
  have n2: "CalculateResult \<notin> set [InputDigit ''3'', InputDecimal, InputDigit ''5'', ToggleSign]"
    "CalculatePercentage \<notin> set [InputDigit ''3'', InputDecimal, InputDigit ''5'', ToggleSign]"
    by simp_all
  have c2: "currentInput (run [InputDigit ''3'', InputDecimal, InputDigit ''5'', ToggleSign] constructor)
      = ''-3.5''"
    by (simp add: run_Cons inputDigit_input inputDecimal_def toggleSign_def stringIncludes_def
        startsWith_def)
  from currentInput_nonempty_and_grammar [OF v2, of constructor "Finite False 0 (- 1074)"] n2
  have second: "plainResults [InputDigit ''3'', InputDecimal, InputDigit ''5'', ToggleSign] constructor"
    "operandGrammar
       (currentInput (run [InputDigit ''3'', InputDecimal, InputDigit ''5'', ToggleSign] constructor))"
    "operandGrammar (numberToString (Finite False 0 (- 1074)))
       \<longleftrightarrow> plainNumberString (numberToString (Finite False 0 (- 1074)))"
    by blast+
  have z: "operandGrammar (numberToString (Finite False 0 (- 1074)))" by simp
  with second(3) have z': "plainNumberString (numberToString (Finite False 0 (- 1074)))" by blast
  from first v2 n2 c2 second(1,2) z z' show ?thesis by (simp only: simp_thms)
qed

text \<open>
  One digit and four times \<open>calculatePercentage\<close>: the quotient \<open>10\<^sup>-\<^sup>8\<close> is written in exponent
  notation.  So is the quotient \<open>10\<^sup>-\<^sup>7\<close> that \<open>calculateResult\<close> stores for \<^verbatim>\<open>1 / 10000000\<close>.  A
  numeral of 310 digits is read as the infinity: \<open>calculatePercentage\<close> then stores
  \<^verbatim>\<open>Infinity\<close>, and \<open>calculateResult\<close> stores \<^verbatim>\<open>NaN\<close> for its product with zero.
\<close>

theorem toString_leaves_grammar:
  "list_all validAction [InputDigit ''1'', CalculatePercentage, CalculatePercentage,
      CalculatePercentage, CalculatePercentage] \<and>
   currentInput (run [InputDigit ''1'', CalculatePercentage, CalculatePercentage,
      CalculatePercentage, CalculatePercentage] constructor) = ''1e-8'' \<and>
   \<not> operandGrammar ''1e-8'' \<and>
   list_all validAction [InputDigit ''1'', SetOperator ''/'', InputDigit ''1'', InputDigit ''0'',
      InputDigit ''0'', InputDigit ''0'', InputDigit ''0'', InputDigit ''0'', InputDigit ''0'',
      InputDigit ''0'', CalculateResult] \<and>
   currentInput (run [InputDigit ''1'', SetOperator ''/'', InputDigit ''1'', InputDigit ''0'',
      InputDigit ''0'', InputDigit ''0'', InputDigit ''0'', InputDigit ''0'', InputDigit ''0'',
      InputDigit ''0'', CalculateResult] constructor) = ''1e-7'' \<and>
   \<not> operandGrammar ''1e-7'' \<and>
   list_all validAction (map InputDigit (''1'' # replicate 309 ''0'') @ [CalculatePercentage]) \<and>
   currentInput (run (map InputDigit (''1'' # replicate 309 ''0'') @ [CalculatePercentage])
      constructor) = ''Infinity'' \<and>
   \<not> operandGrammar ''Infinity'' \<and>
   list_all validAction
     (map InputDigit (''1'' # replicate 309 ''0'') @ [SetOperator ''*'', CalculateResult]) \<and>
   currentInput (run (map InputDigit (''1'' # replicate 309 ''0'')
      @ [SetOperator ''*'', CalculateResult]) constructor) = ''NaN'' \<and>
   \<not> operandGrammar ''NaN''"
proof -
  have v: "list_all validAction [InputDigit ''1'', CalculatePercentage, CalculatePercentage,
      CalculatePercentage, CalculatePercentage]"
    by (simp add: digitKeys_def)
  have p1: "numberToString (numDiv (parseFloat ''1'') (numberLiteral 100)) = ''0.01''"
    by code_simp
  have p2: "numberToString (numDiv (parseFloat ''0.01'') (numberLiteral 100)) = ''0.0001''"
    by code_simp
  have p3: "numberToString (numDiv (parseFloat ''0.0001'') (numberLiteral 100)) = ''0.000001''"
    by code_simp
  have p4: "numberToString (numDiv (parseFloat ''0.000001'') (numberLiteral 100)) = ''1e-8''"
    by code_simp
  have c: "currentInput (run [InputDigit ''1'', CalculatePercentage, CalculatePercentage,
      CalculatePercentage, CalculatePercentage] constructor) = ''1e-8''"
    by (simp add: run_Cons inputDigit_input calculatePercentage_input p1 p2 p3 p4)
  have g: "\<not> operandGrammar ''1e-8''"
    by (simp add: operandGrammar_def isDigit_def)
  have v': "list_all validAction [InputDigit ''1'', SetOperator ''/'', InputDigit ''1'',
      InputDigit ''0'', InputDigit ''0'', InputDigit ''0'', InputDigit ''0'', InputDigit ''0'',
      InputDigit ''0'', InputDigit ''0'', CalculateResult]"
    by (simp add: digitKeys_def operatorKeys_def)
  define c1 where "c1 = setOperator ''/'' (inputDigit ''1'' constructor)"
  have f1: "currentInput c1 = ''0''" "operator c1 = Some ''/''"
    "previousValue c1 = Some (parseFloat ''1'')"
    by (simp_all add: c1_def setOperator_fields inputDigit_input inputDigit_def
        constructor_def updateDisplay_def)
  define c2 where "c2 = run [InputDigit ''1'', InputDigit ''0'', InputDigit ''0'',
      InputDigit ''0'', InputDigit ''0'', InputDigit ''0'', InputDigit ''0'', InputDigit ''0''] c1"
  have f2: "currentInput c2 = ''10000000''" "operator c2 = Some ''/''"
    "previousValue c2 = Some (parseFloat ''1'')"
    using f1 by (simp_all add: c2_def run_Cons inputDigit_def updateDisplay_def)
  have q: "numberToString (applyOperator ''/'' (parseFloat ''1'') (parseFloat ''10000000''))
      = ''1e-7''"
    by code_simp
  have "currentInput (calculateResult c2) = ''1e-7''"
    using calculateResult_input [OF f2(2,3)] by (simp only: f2(1) q)
  then have c': "currentInput (run [InputDigit ''1'', SetOperator ''/'', InputDigit ''1'',
      InputDigit ''0'', InputDigit ''0'', InputDigit ''0'', InputDigit ''0'', InputDigit ''0'',
      InputDigit ''0'', InputDigit ''0'', CalculateResult] constructor) = ''1e-7''"
    by (simp add: run_Cons c2_def c1_def)
  have g': "\<not> operandGrammar ''1e-7''"
    by (simp add: operandGrammar_def isDigit_def)
  have w: "list_all validAction (map InputDigit (''1'' # replicate 309 ''0'') @ [CalculatePercentage])"
    "list_all validAction
       (map InputDigit (''1'' # replicate 309 ''0'') @ [SetOperator ''*'', CalculateResult])"
    using overflow_valid by (simp_all add: operatorKeys_def)
  have h: "numberLiteral 100 = Finite False 7036874417766400 (- 46)"
    by code_simp
  have "currentInput (run (map InputDigit (''1'' # replicate 309 ''0'') @ [CalculatePercentage])
      constructor) = numberToString (numDiv (Infinity False) (numberLiteral 100))"
    by (simp only: run_append run_Cons run_Nil step.simps calculatePercentage_input
        overflow_entered parseFloat_overflow)
  then have i: "currentInput (run (map InputDigit (''1'' # replicate 309 ''0'')
      @ [CalculatePercentage]) constructor) = ''Infinity''"
    unfolding h by simp
  define d where "d = setOperator ''*'' (run (map InputDigit (''1'' # replicate 309 ''0'')) constructor)"
  have fd: "currentInput d = ''0''" "operator d = Some ''*''"
    "previousValue d = Some (Infinity False)"
    unfolding d_def by (rule overflow_setOperator)+
  have "currentInput (calculateResult d) = ''NaN''"
    using calculateResult_input [OF fd(2,3)]
    by (simp add: fd(1) parseFloat_special applyOperator_def)
  then have n: "currentInput (run (map InputDigit (''1'' # replicate 309 ''0'')
      @ [SetOperator ''*'', CalculateResult]) constructor) = ''NaN''"
    by (simp only: run_append run_Cons run_Nil step.simps d_def)
  have gi: "\<not> operandGrammar ''Infinity''" "\<not> operandGrammar ''NaN''"
    by (simp_all add: operandGrammar_def isDigit_def)
  from v c g v' c' g' w i n gi show ?thesis by (simp only: simp_thms)
qed

section \<open>A second operator without an operand in between\<close>

lemma applyOperator_direct:
  "op \<in> operatorKeys \<Longrightarrow> applyOperator op x y = directEvaluation op x y"
  by (auto simp: operatorKeys_def applyOperator_def directEvaluation_def)

lemma numAdd_zero_right:
  assumes m: "0 < m" and c: "canonical m e"
  shows "numAdd (Finite s m e) (Finite s' 0 (- 1074)) = Finite s m e"
proof -
  have e: "- 1074 \<le> e" using c by (auto simp: canonical_def)
  then have mn: "min e (- 1074) = - 1074" by simp
  define k where "k = nat (e + 1074)"
  define M where "M = signedMant s m * 2 ^ k"
  have Mabs: "\<bar>M\<bar> = m * 2 ^ k" using m by (simp add: M_def abs_mult)
  have Mneg: "M < 0 \<longleftrightarrow> s" using m by (simp add: M_def mult_less_0_iff)
  have M0: "M \<noteq> 0" using m by (simp add: M_def)
  have "(2::real) powi (e + 1074) = 2 ^ k" using e by (simp add: k_def power_int_def)
  moreover have "(2::real) powi (e + 1074) = 2 powi e * 2 powi 1074"
    by (simp add: power_int_add)
  ultimately have "(2::real) ^ k = 2 powi e * 2 ^ 1074" by simp
  then have v: "real_of_int (m * 2 ^ k) / real_of_int (2 ^ 1074) = real_of_int m * 2 powi e"
    by simp
  have "numAdd (Finite s m e) (Finite s' 0 (- 1074)) = roundFrac (M < 0) \<bar>M\<bar> (2 ^ 1074)"
    using M0 by (simp add: mn Let_def M_def k_def)
  also have "\<dots> = roundFrac s (m * 2 ^ k) (2 ^ 1074)" by (simp only: Mabs Mneg)
  also have "\<dots> = Finite s m e"
    using m by (intro roundFrac_exact [OF m c _ _ v]) simp_all
  finally show ?thesis .
qed

lemma numAdd_zero_cases:
  assumes "wellformed p"
  shows "numAdd p (Finite s' 0 (- 1074)) = p \<or>
         (isZero p \<and> isZero (numAdd p (Finite s' 0 (- 1074))))"
proof (cases p)
  case (Finite s m e)
  show ?thesis
  proof (cases "m = 0")
    case True
    then show ?thesis by (simp add: Finite Let_def)
  next
    case False
    with assms have "0 < m" "canonical m e" by (auto simp: Finite dest: canonical_nonneg)
    then show ?thesis by (simp only: Finite numAdd_zero_right simp_thms)
  qed
qed simp_all

lemma stored_number:
  assumes "wellformed r"
  shows "parseFloat (numberToString r) = (if isZero r then numberLiteral 0 else r)"
  using parseFloat_numberToString [OF assms] by (simp add: zero_literal)

text \<open>
  C10.  In a state with an operator \<open>op1\<close> pending and \<open>currentInput\<close> still \<^verbatim>\<open>0\<close>, \<open>setOperator op2\<close>
  first resolves the pending operation with the right operand zero, and \<open>op2\<close> becomes the
  pending operator.  The new \<open>previousValue\<close> is the number \<open>previous op1 0\<close> of the
  specification, a negative zero being stored as zero: for \<^verbatim>\<open>+\<close> and \<^verbatim>\<open>-\<close> it is the old
  \<open>previousValue\<close>, for \<^verbatim>\<open>/\<close> it is zero, and for \<^verbatim>\<open>*\<close> it is zero when the old \<open>previousValue\<close> is
  finite and NaN when it is an infinity or NaN.
\<close>

theorem second_operator_resolves_pending:
  assumes "operator c = Some op1" and "op1 \<in> operatorKeys" and "previousValue c = Some p"
    and "wellformed p" and "currentInput c = ''0''"
  shows "operator (setOperator op2 c) = Some op2 \<and>
         previousValue (setOperator op2 c) \<noteq> None \<and>
         sameValueZero (the (previousValue (setOperator op2 c)))
           (directEvaluation op1 p (numberLiteral 0)) \<and>
         (op1 = ''+'' \<or> op1 = ''-'' \<longrightarrow>
            previousValue (setOperator op2 c) = Some (if isZero p then numberLiteral 0 else p)) \<and>
         (op1 = ''/'' \<longrightarrow> previousValue (setOperator op2 c) = Some (numberLiteral 0)) \<and>
         (op1 = ''*'' \<longrightarrow>
            previousValue (setOperator op2 c)
              = Some (if isFiniteNumber p then numberLiteral 0 else NaN))"
proof -
  define r where "r = applyOperator op1 p (numberLiteral 0)"
  have wf: "wellformed r"
    unfolding r_def using assms(4) by (intro applyOperator_wellformed) (simp_all add: zero_literal)
  have pv: "previousValue (setOperator op2 c) = Some (parseFloat (numberToString r))"
    using setOperator_pending [OF assms(1,2,3), of op2] assms(5)
    by (simp add: parseFloat_zero_literal r_def)
  have rt: "parseFloat (numberToString r) = (if isZero r then numberLiteral 0 else r)"
    using wf by (rule stored_number)
  have dr: "directEvaluation op1 p (numberLiteral 0) = r"
    unfolding r_def using assms(2) by (rule applyOperator_direct [symmetric])
  have same: "sameValueZero (parseFloat (numberToString r)) r"
    by (simp add: rt sameValueZero_def zero_literal)
  have ad: "parseFloat (numberToString r) = (if isZero p then numberLiteral 0 else p)"
    if "op1 = ''+'' \<or> op1 = ''-''"
  proof -
    from that have "r = numAdd p (Finite False 0 (- 1074)) \<or> r = numAdd p (Finite True 0 (- 1074))"
      by (auto simp: r_def applyOperator_def numSub_def zero_literal)
    with numAdd_zero_cases [OF assms(4)]
    have "r = p \<or> (isZero p \<and> isZero r)" by metis
    then show ?thesis by (auto simp: rt)
  qed
  have dv: "parseFloat (numberToString r) = numberLiteral 0" if "op1 = ''/''"
    using that by (simp add: r_def applyOperator_def zero_literal parseFloat_special)
  have ml: "parseFloat (numberToString r) = (if isFiniteNumber p then numberLiteral 0 else NaN)"
    if "op1 = ''*''"
  proof (cases p)
    case NaN
    then show ?thesis using that by (simp add: r_def applyOperator_def zero_literal parseFloat_special)
  next
    case (Infinity s)
    then show ?thesis using that by (simp add: r_def applyOperator_def zero_literal parseFloat_special)
  next
    case (Finite s m e)
    then have "isZero r"
      using that by (simp add: r_def applyOperator_def zero_literal Let_def)
    then show ?thesis by (simp add: rt Finite)
  qed
  show ?thesis
    unfolding pv dr setOperator_fields(2) using same ad dv ml by simp
qed

theorem second_operator_resolves_pending_witness:
  "operator (setOperator ''+'' (inputDigit ''7'' constructor)) = Some ''+'' \<and>
   ''+'' \<in> operatorKeys \<and> ''*'' \<in> operatorKeys \<and>
   previousValue (setOperator ''+'' (inputDigit ''7'' constructor)) = Some (parseFloat ''7'') \<and>
   wellformed (parseFloat ''7'') \<and>
   currentInput (setOperator ''+'' (inputDigit ''7'' constructor)) = ''0'' \<and>
   previousValue (setOperator ''-'' (setOperator ''+'' (inputDigit ''7'' constructor)))
     = Some (parseFloat ''7'') \<and>
   operator (setOperator ''-'' (setOperator ''+'' (inputDigit ''7'' constructor))) = Some ''-'' \<and>
   previousValue (setOperator ''+'' (setOperator ''*'' (inputDigit ''7'' constructor)))
     = Some (numberLiteral 0) \<and>
   ''/'' \<in> operatorKeys \<and>
   previousValue (setOperator ''+'' (setOperator ''/'' (inputDigit ''7'' constructor)))
     = Some (numberLiteral 0)"
proof -
  have f: "operator (setOperator op (inputDigit ''7'' constructor)) = Some op"
    "previousValue (setOperator op (inputDigit ''7'' constructor)) = Some (parseFloat ''7'')"
    "currentInput (setOperator op (inputDigit ''7'' constructor)) = ''0''" for op
    by (simp_all add: setOperator_fields inputDigit_def)
  have w: "wellformed (parseFloat ''7'')" by (rule parseFloat_wellformed)
  have k: "''+'' \<in> operatorKeys" "''*'' \<in> operatorKeys" "''/'' \<in> operatorKeys"
    by (simp_all add: operatorKeys_def)
  have n: "parseFloat ''7'' = Finite False 7881299347898368 (- 50)"
    by code_simp
  have z: "\<not> isZero (parseFloat ''7'')" "isFiniteNumber (parseFloat ''7'')" by (simp_all add: n)
  from second_operator_resolves_pending [OF f(1) k(1) f(2) w f(3), of "''-''"] z
  have a: "previousValue (setOperator ''-'' (setOperator ''+'' (inputDigit ''7'' constructor)))
      = Some (parseFloat ''7'')"
    "operator (setOperator ''-'' (setOperator ''+'' (inputDigit ''7'' constructor))) = Some ''-''"
    by simp_all
  from second_operator_resolves_pending [OF f(1) k(2) f(2) w f(3), of "''+''"] z
  have b: "previousValue (setOperator ''+'' (setOperator ''*'' (inputDigit ''7'' constructor)))
      = Some (numberLiteral 0)"
    by simp
  from second_operator_resolves_pending [OF f(1) k(3) f(2) w f(3), of "''+''"]
  have d: "previousValue (setOperator ''+'' (setOperator ''/'' (inputDigit ''7'' constructor)))
      = Some (numberLiteral 0)"
    by simp
  from f [of "''+''"] k w a b d show ?thesis by (simp only: simp_thms)
qed

text \<open>
  A numeral of 310 digits is read as the infinity.  With \<^verbatim>\<open>*\<close> pending on it, a second operator
  stores the product of the infinity and zero, which is NaN and not zero.  And with \<^verbatim>\<open>-\<close>
  pending on the negative zero that \<^verbatim>\<open>-0.\<close> is read as, the difference is the negative zero,
  while the zero stored is the positive one.
\<close>

theorem second_operator_after_overflow:
  "list_all validAction
     (map InputDigit (''1'' # replicate 309 ''0'') @ [SetOperator ''*'', SetOperator ''+'']) \<and>
   operator (run (map InputDigit (''1'' # replicate 309 ''0'') @ [SetOperator ''*'']) constructor)
     = Some ''*'' \<and>
   currentInput (run (map InputDigit (''1'' # replicate 309 ''0'') @ [SetOperator ''*''])
     constructor) = ''0'' \<and>
   previousValue (run (map InputDigit (''1'' # replicate 309 ''0'') @ [SetOperator ''*''])
     constructor) = Some (Infinity False) \<and>
   previousValue (run (map InputDigit (''1'' # replicate 309 ''0'')
     @ [SetOperator ''*'', SetOperator ''+'']) constructor) = Some NaN \<and>
   NaN \<noteq> numberLiteral 0 \<and>
   currentInput (run [InputDecimal, ToggleSign] constructor) = ''-0.'' \<and>
   previousValue (run [InputDecimal, ToggleSign, SetOperator ''-''] constructor)
     = Some (Finite True 0 (- 1074)) \<and>
   directEvaluation ''-'' (Finite True 0 (- 1074)) (numberLiteral 0) = Finite True 0 (- 1074) \<and>
   previousValue (run [InputDecimal, ToggleSign, SetOperator ''-'', SetOperator ''+''] constructor)
     = Some (Finite False 0 (- 1074))"
proof -
  have v: "list_all validAction
     (map InputDigit (''1'' # replicate 309 ''0'') @ [SetOperator ''*'', SetOperator ''+''])"
    using overflow_valid by (simp add: operatorKeys_def)
  define d where "d = setOperator ''*'' (run (map InputDigit (''1'' # replicate 309 ''0'')) constructor)"
  have r1: "run (map InputDigit (''1'' # replicate 309 ''0'') @ [SetOperator ''*'']) constructor = d"
    by (simp only: run_append run_Cons run_Nil step.simps d_def)
  have r2: "run (map InputDigit (''1'' # replicate 309 ''0'') @ [SetOperator ''*'', SetOperator ''+''])
      constructor = setOperator ''+'' d"
    by (simp only: run_append run_Cons run_Nil step.simps d_def)
  have fd: "currentInput d = ''0''" "operator d = Some ''*''"
    "previousValue d = Some (Infinity False)"
    unfolding d_def by (rule overflow_setOperator)+
  have k: "''*'' \<in> operatorKeys" by (simp add: operatorKeys_def)
  have "previousValue (setOperator ''+'' d) = Some NaN"
    using setOperator_pending [OF fd(2) k fd(3), of "''+''"]
    by (simp add: fd(1) parseFloat_special applyOperator_def)
  with v fd have inf: "list_all validAction
     (map InputDigit (''1'' # replicate 309 ''0'') @ [SetOperator ''*'', SetOperator ''+''])"
    "operator (run (map InputDigit (''1'' # replicate 309 ''0'') @ [SetOperator ''*'']) constructor)
       = Some ''*''"
    "currentInput (run (map InputDigit (''1'' # replicate 309 ''0'') @ [SetOperator ''*''])
       constructor) = ''0''"
    "previousValue (run (map InputDigit (''1'' # replicate 309 ''0'') @ [SetOperator ''*''])
       constructor) = Some (Infinity False)"
    "previousValue (run (map InputDigit (''1'' # replicate 309 ''0'')
       @ [SetOperator ''*'', SetOperator ''+'']) constructor) = Some NaN"
    "NaN \<noteq> numberLiteral 0"
    unfolding r1 r2 by (simp_all add: zero_literal)
  define z where "z = setOperator ''-'' (toggleSign (inputDecimal constructor))"
  have ci: "currentInput (toggleSign (inputDecimal constructor)) = ''-0.''"
    "operator (toggleSign (inputDecimal constructor)) = None"
    by (simp_all add: toggleSign_def inputDecimal_def stringIncludes_def startsWith_def)
  have pz: "parseFloat ''-0.'' = Finite True 0 (- 1074)"
    by code_simp
  have fz: "currentInput z = ''0''" "operator z = Some ''-''"
    "previousValue z = Some (Finite True 0 (- 1074))"
    by (simp_all add: z_def setOperator_fields ci pz)
  have km: "''-'' \<in> operatorKeys" by (simp add: operatorKeys_def)
  have dz: "directEvaluation ''-'' (Finite True 0 (- 1074)) (numberLiteral 0) = Finite True 0 (- 1074)"
    by (simp add: directEvaluation_def numSub_def zero_literal Let_def)
  have "previousValue (setOperator ''+'' z) = Some (Finite False 0 (- 1074))"
    using setOperator_pending [OF fz(2) km fz(3), of "''+''"]
    by (simp add: fz(1) parseFloat_special applyOperator_def numSub_def Let_def)
  then have neg: "currentInput (run [InputDecimal, ToggleSign] constructor) = ''-0.''"
    "previousValue (run [InputDecimal, ToggleSign, SetOperator ''-''] constructor)
       = Some (Finite True 0 (- 1074))"
    "previousValue (run [InputDecimal, ToggleSign, SetOperator ''-'', SetOperator ''+''] constructor)
       = Some (Finite False 0 (- 1074))"
    using ci(1) fz(3) by (simp_all add: run_Cons z_def)
  from inf neg dz show ?thesis by (simp only: simp_thms)
qed

section \<open>Arithmetic on integers below \<open>2\<^sup>5\<^sup>3\<close>\<close>

lemma powi_split: "e0 \<le> e \<Longrightarrow> (2::real) powi e = 2 ^ nat (e - e0) * 2 powi e0"
proof -
  assume "e0 \<le> e"
  then have "(2::real) powi (e - e0) = 2 ^ nat (e - e0)" by (simp add: power_int_def)
  moreover have "(2::real) powi ((e - e0) + e0) = 2 powi (e - e0) * 2 powi e0"
    by (rule power_int_add) simp
  ultimately show ?thesis by simp
qed

lemma powi_neg: "e < 0 \<Longrightarrow> (2::real) powi e = 1 / 2 ^ nat (- e)"
  by (simp add: power_int_def field_simps)

lemma powi_nonneg: "0 \<le> e \<Longrightarrow> (2::real) powi e = 2 ^ nat e"
  by (simp add: power_int_def)

lemma roundFrac_int:
  assumes n: "0 < n" and d: "0 < d" and V: "0 < V" "V < 2 ^ 53"
    and v: "real_of_int n / real_of_int d = real_of_int V"
  shows "roundFrac neg n d = roundFrac neg V 1"
proof -
  obtain m e where c: "canonical m e" and m: "0 < m"
    and r: "real_of_int m * 2 powi e = real_of_int V"
    using small_int_canonical [OF V] by blast
  have "roundFrac neg n d = Finite neg m e"
    using v r by (intro roundFrac_exact [OF m c n d]) simp
  moreover have "roundFrac neg V 1 = Finite neg m e"
    using r by (intro roundFrac_exact [OF m c V(1)]) simp_all
  ultimately show ?thesis by simp
qed

lemma intNumber_zero: "intNumber 0 = Finite False 0 (- 1074)"
  by (simp add: intNumber_def)

lemma intNumber_nonzero:
  assumes "z \<noteq> 0" "\<bar>z\<bar> < 2 ^ 53"
  obtains m e where "intNumber z = Finite (z < 0) m e" "0 < m" "canonical m e"
    "real_of_int m * 2 powi e = real_of_int \<bar>z\<bar>"
proof -
  have V: "0 < \<bar>z\<bar>" using assms(1) by simp
  obtain m e where c: "canonical m e" and m: "0 < m"
    and r: "real_of_int m * 2 powi e = real_of_int \<bar>z\<bar>"
    using small_int_canonical [OF V assms(2)] by blast
  have "roundFrac (z < 0) \<bar>z\<bar> 1 = Finite (z < 0) m e"
    using r by (intro roundFrac_exact [OF m c V]) simp_all
  then have "intNumber z = Finite (z < 0) m e" by (simp add: intNumber_def)
  from this m c r show ?thesis by (rule that)
qed

lemma represents_intNumber:
  assumes "\<bar>z\<bar> < 2 ^ 53"
  shows "represents (intNumber z) z"
proof (cases "z = 0")
  case True
  then show ?thesis by (simp add: intNumber_zero)
next
  case False
  then obtain m e where i: "intNumber z = Finite (z < 0) m e" and m: "0 < m"
    and c: "canonical m e" and r: "real_of_int m * 2 powi e = real_of_int \<bar>z\<bar>"
    using intNumber_nonzero [OF _ assms] by blast
  have e: "- 1074 \<le> e" using c by (auto simp: canonical_def)
  show ?thesis
  proof (cases "z < 0")
    case True
    then have "real_of_int (- m) * 2 powi e = real_of_int z" using r by simp
    then show ?thesis using True m e by (simp add: i)
  next
    case False
    then have "real_of_int m * 2 powi e = real_of_int z" using r by simp
    then show ?thesis using False m e by (simp add: i)
  qed
qed

lemma represents_zero:
  "represents (Finite s m e) 0 \<Longrightarrow> m = 0"
  by (auto split: if_splits)

lemma represents_sign:
  assumes "represents (Finite s m e) z" "z \<noteq> 0"
  shows "0 < m" "z < 0 \<longleftrightarrow> s" "real_of_int m * 2 powi e = real_of_int \<bar>z\<bar>"
proof -
  have p: "(0::real) < 2 powi e" by simp
  from assms(1) have m0: "0 \<le> m"
    and v: "real_of_int (signedMant s m) * 2 powi e = real_of_int z" by simp_all
  have "m \<noteq> 0" using v assms(2) by (cases s) auto
  with m0 show m: "0 < m" by simp
  then have mp: "0 < real_of_int m * 2 powi e" using p by simp
  show s: "z < 0 \<longleftrightarrow> s"
  proof (cases s)
    case True
    then have "real_of_int z = - (real_of_int m * 2 powi e)" using v by simp
    with mp have "real_of_int z < 0" by linarith
    then show ?thesis using True by simp
  next
    case False
    then have "real_of_int z = real_of_int m * 2 powi e" using v by simp
    with mp have "0 < real_of_int z" by linarith
    then show ?thesis using False by simp
  qed
  show "real_of_int m * 2 powi e = real_of_int \<bar>z\<bar>"
    using v s by (cases s) simp_all
qed

lemma represents_unaryMinus: "represents x z \<Longrightarrow> represents (unaryMinus x) (- z)"
  by (cases x) (auto split: if_splits)

lemma sameValueZero_string:
  "sameValueZero x y \<Longrightarrow> numberToString x = numberToString y"
  by (cases x; cases y) (auto simp: sameValueZero_def)

lemma intNumber_isZero: "\<bar>z\<bar> < 2 ^ 53 \<Longrightarrow> isZero (intNumber z) \<longleftrightarrow> z = 0"
proof (cases "z = 0")
  case True
  then show ?thesis by (simp add: intNumber_zero)
next
  case False
  assume "\<bar>z\<bar> < 2 ^ 53"
  with False obtain m e where "intNumber z = Finite (z < 0) m e" "0 < m"
    using intNumber_nonzero by blast
  then show ?thesis using False by simp
qed

lemma numAdd_represents:
  assumes x: "represents x a" and y: "represents y b" and z: "\<bar>a + b\<bar> < 2 ^ 53"
  shows "sameValueZero (numAdd x y) (intNumber (a + b))"
proof -
  obtain s1 m1 e1 where X: "x = Finite s1 m1 e1" using x by (cases x) auto
  obtain s2 m2 e2 where Y: "y = Finite s2 m2 e2" using y by (cases y) auto
  define e where "e = min e1 e2"
  define M where "M = signedMant s1 m1 * 2 ^ nat (e1 - e) + signedMant s2 m2 * 2 ^ nat (e2 - e)"
  have va: "real_of_int (signedMant s1 m1) * 2 powi e1 = real_of_int a"
    and vb: "real_of_int (signedMant s2 m2) * 2 powi e2 = real_of_int b"
    and lo: "- 1074 \<le> e1" "- 1074 \<le> e2"
    using x y by (simp_all add: X Y)
  have p: "(0::real) < 2 powi e" by simp
  have "real_of_int M * 2 powi e
      = real_of_int (signedMant s1 m1) * (2 ^ nat (e1 - e) * 2 powi e)
        + real_of_int (signedMant s2 m2) * (2 ^ nat (e2 - e) * 2 powi e)"
    by (simp add: M_def algebra_simps)
  also have "\<dots> = real_of_int (signedMant s1 m1) * 2 powi e1
        + real_of_int (signedMant s2 m2) * 2 powi e2"
    using powi_split [of e e1] powi_split [of e e2] by (simp add: e_def)
  finally have vM: "real_of_int M * 2 powi e = real_of_int (a + b)"
    using va vb by simp
  have n: "numAdd x y =
      (if M = 0 then Finite (s1 \<and> s2) 0 (- 1074)
       else if e < 0 then roundFrac (M < 0) \<bar>M\<bar> (2 ^ nat (- e))
       else roundFrac (M < 0) (\<bar>M\<bar> * 2 ^ nat e) 1)"
    unfolding X Y numAdd.simps Let_def e_def [symmetric] M_def [symmetric] ..
  show ?thesis
  proof (cases "M = 0")
    case True
    then have "real_of_int (a + b) = 0" using vM by simp
    then have "a + b = 0" by (simp only: of_int_eq_0_iff)
    then show ?thesis using True by (simp add: n sameValueZero_def intNumber_zero)
  next
    case False
    have zM: "real_of_int (a + b) \<noteq> 0" using vM False p by auto
    then have z0: "a + b \<noteq> 0" by auto
    have sg: "M < 0 \<longleftrightarrow> a + b < 0"
    proof -
      have np: "\<not> (2::real) powi e < 0" using p by linarith
      have "real_of_int M < 0 \<longleftrightarrow> real_of_int M * 2 powi e < 0"
        using p by (simp add: mult_less_0_iff np)
      also have "\<dots> \<longleftrightarrow> real_of_int (a + b) < 0" by (simp only: vM)
      finally show ?thesis by (simp only: of_int_less_0_iff)
    qed
    have ab: "real_of_int \<bar>M\<bar> * 2 powi e = real_of_int \<bar>a + b\<bar>"
    proof -
      have "real_of_int \<bar>M\<bar> * 2 powi e = \<bar>real_of_int M * 2 powi e\<bar>"
        by (simp add: abs_mult)
      then show ?thesis unfolding vM by simp
    qed
    have Mp: "0 < \<bar>M\<bar>" using False by simp
    have zp: "0 < \<bar>a + b\<bar>" using z0 by simp
    have "numAdd x y = roundFrac (a + b < 0) \<bar>a + b\<bar> 1"
    proof (cases "e < 0")
      case True
      have "real_of_int \<bar>M\<bar> / real_of_int (2 ^ nat (- e)) = real_of_int \<bar>a + b\<bar>"
        using ab powi_neg [OF True] by simp
      then have "roundFrac (M < 0) \<bar>M\<bar> (2 ^ nat (- e)) = roundFrac (M < 0) \<bar>a + b\<bar> 1"
        using Mp zp z by (intro roundFrac_int) simp_all
      from this [unfolded sg] show ?thesis unfolding n sg using False True by simp
    next
      case False
      then have "real_of_int (\<bar>M\<bar> * 2 ^ nat e) = real_of_int \<bar>a + b\<bar>"
        using ab powi_nonneg [of e] by simp
      then have "\<bar>M\<bar> * 2 ^ nat e = \<bar>a + b\<bar>" by (simp only: of_int_eq_iff)
      then show ?thesis unfolding n sg using False \<open>M \<noteq> 0\<close> by simp
    qed
    then show ?thesis by (simp add: sameValueZero_def intNumber_def)
  qed
qed

lemma numMul_represents:
  assumes x: "represents x a" and y: "represents y b" and z: "\<bar>a * b\<bar> < 2 ^ 53"
  shows "sameValueZero (numMul x y) (intNumber (a * b))"
proof -
  obtain s1 m1 e1 where X: "x = Finite s1 m1 e1" using x by (cases x) auto
  obtain s2 m2 e2 where Y: "y = Finite s2 m2 e2" using y by (cases y) auto
  define e where "e = e1 + e2"
  have n: "numMul x y =
      (if e < 0 then roundFrac (s1 \<noteq> s2) (m1 * m2) (2 ^ nat (- e))
       else roundFrac (s1 \<noteq> s2) (m1 * m2 * 2 ^ nat e) 1)"
    unfolding X Y numMul.simps Let_def e_def [symmetric] ..
  show ?thesis
  proof (cases "a * b = 0")
    case True
    then have "m1 = 0 \<or> m2 = 0"
      using x y represents_zero by (auto simp: X Y simp del: represents.simps)
    then have "isZero (numMul x y)" by (auto simp: n)
    moreover have "intNumber (a * b) = Finite False 0 (- 1074)"
      by (simp only: True intNumber_zero)
    ultimately show ?thesis by (simp add: sameValueZero_def)
  next
    case False
    then have a0: "a \<noteq> 0" and b0: "b \<noteq> 0" by simp_all
    from represents_sign [OF x [unfolded X] a0]
    have m1: "0 < m1" and s1: "a < 0 \<longleftrightarrow> s1"
      and v1: "real_of_int m1 * 2 powi e1 = real_of_int \<bar>a\<bar>" by simp_all
    from represents_sign [OF y [unfolded Y] b0]
    have m2: "0 < m2" and s2: "b < 0 \<longleftrightarrow> s2"
      and v2: "real_of_int m2 * 2 powi e2 = real_of_int \<bar>b\<bar>" by simp_all
    have sg: "(s1 \<noteq> s2) \<longleftrightarrow> a * b < 0"
      using a0 b0 s1 s2 by (auto simp: mult_less_0_iff)
    have "real_of_int (m1 * m2) * 2 powi e
        = (real_of_int m1 * 2 powi e1) * (real_of_int m2 * 2 powi e2)"
      by (simp add: e_def power_int_add)
    then have ab: "real_of_int (m1 * m2) * 2 powi e = real_of_int \<bar>a * b\<bar>"
      unfolding v1 v2 by (simp add: abs_mult)
    have mp: "0 < m1 * m2" using m1 m2 by simp
    have zp: "0 < \<bar>a * b\<bar>" using False by simp
    have "numMul x y = roundFrac (a * b < 0) \<bar>a * b\<bar> 1"
    proof (cases "e < 0")
      case True
      have "real_of_int (m1 * m2) / real_of_int (2 ^ nat (- e)) = real_of_int \<bar>a * b\<bar>"
        using ab powi_neg [OF True] by simp
      then have "roundFrac (s1 \<noteq> s2) (m1 * m2) (2 ^ nat (- e)) = roundFrac (s1 \<noteq> s2) \<bar>a * b\<bar> 1"
        using mp zp z by (intro roundFrac_int) simp_all
      from this [unfolded sg] show ?thesis unfolding n sg using True by simp
    next
      case False
      then have "real_of_int (m1 * m2 * 2 ^ nat e) = real_of_int \<bar>a * b\<bar>"
        using ab powi_nonneg [of e] by simp
      then have "m1 * m2 * 2 ^ nat e = \<bar>a * b\<bar>" by (simp only: of_int_eq_iff)
      then show ?thesis unfolding n sg using False by simp
    qed
    then show ?thesis by (simp add: sameValueZero_def intNumber_def)
  qed
qed

lemma numDiv_represents:
  assumes x: "represents x a" and y: "represents y b" and b0: "b \<noteq> 0" and dv: "b dvd a"
    and z: "\<bar>a div b\<bar> < 2 ^ 53"
  shows "sameValueZero (numDiv x y) (intNumber (a div b))"
proof -
  obtain s1 m1 e1 where X: "x = Finite s1 m1 e1" using x by (cases x) auto
  obtain s2 m2 e2 where Y: "y = Finite s2 m2 e2" using y by (cases y) auto
  from represents_sign [OF y [unfolded Y] b0]
  have m2: "0 < m2" and s2: "b < 0 \<longleftrightarrow> s2"
    and v2: "real_of_int m2 * 2 powi e2 = real_of_int \<bar>b\<bar>" by simp_all
  have n: "numDiv x y =
      (if e2 \<le> e1 then roundFrac (s1 \<noteq> s2) (m1 * 2 ^ nat (e1 - e2)) m2
       else roundFrac (s1 \<noteq> s2) m1 (m2 * 2 ^ nat (e2 - e1)))"
    using m2 unfolding X Y numDiv.simps by simp
  have q: "real_of_int (a div b) = real_of_int a / real_of_int b"
    using dv by (rule real_of_int_div)
  show ?thesis
  proof (cases "a = 0")
    case True
    then have "m1 = 0" using x represents_zero by (auto simp: X simp del: represents.simps)
    then have "isZero (numDiv x y)" by (auto simp: n)
    moreover have "intNumber (a div b) = Finite False 0 (- 1074)"
      by (simp add: True intNumber_zero)
    ultimately show ?thesis by (simp add: sameValueZero_def)
  next
    case False
    from represents_sign [OF x [unfolded X] False]
    have m1: "0 < m1" and s1: "a < 0 \<longleftrightarrow> s1"
      and v1: "real_of_int m1 * 2 powi e1 = real_of_int \<bar>a\<bar>" by simp_all
    have q0: "a div b \<noteq> 0"
    proof
      assume "a div b = 0"
      with q have "real_of_int a / real_of_int b = 0" by simp
      with False b0 show False by simp
    qed
    have sg: "(s1 \<noteq> s2) \<longleftrightarrow> a div b < 0"
    proof -
      have "a div b < 0 \<longleftrightarrow> real_of_int a / real_of_int b < 0"
        unfolding q [symmetric] by simp
      also have "\<dots> \<longleftrightarrow> (a < 0) \<noteq> (b < 0)"
        using False b0 by (auto simp: divide_less_0_iff)
      finally show ?thesis using s1 s2 by simp
    qed
    have ab: "real_of_int \<bar>a div b\<bar> = (real_of_int m1 * 2 powi e1) / (real_of_int m2 * 2 powi e2)"
    proof -
      have "real_of_int \<bar>a div b\<bar> = \<bar>real_of_int a / real_of_int b\<bar>"
        unfolding q [symmetric] by simp
      then show ?thesis unfolding v1 v2 by simp
    qed
    have zp: "0 < \<bar>a div b\<bar>" using q0 by simp
    have "numDiv x y = roundFrac (a div b < 0) \<bar>a div b\<bar> 1"
    proof (cases "e2 \<le> e1")
      case True
      have "real_of_int (m1 * 2 ^ nat (e1 - e2)) / real_of_int m2 = real_of_int \<bar>a div b\<bar>"
        unfolding ab using powi_split [OF True] by simp
      then have "roundFrac (s1 \<noteq> s2) (m1 * 2 ^ nat (e1 - e2)) m2
          = roundFrac (s1 \<noteq> s2) \<bar>a div b\<bar> 1"
        using m1 m2 zp z by (intro roundFrac_int) simp_all
      from this [unfolded sg] show ?thesis unfolding n sg using True by simp
    next
      case False
      then have le: "e1 \<le> e2" by simp
      have "real_of_int m1 / real_of_int (m2 * 2 ^ nat (e2 - e1)) = real_of_int \<bar>a div b\<bar>"
        unfolding ab using powi_split [OF le] by simp
      then have "roundFrac (s1 \<noteq> s2) m1 (m2 * 2 ^ nat (e2 - e1))
          = roundFrac (s1 \<noteq> s2) \<bar>a div b\<bar> 1"
        using m1 m2 zp z by (intro roundFrac_int) simp_all
      from this [unfolded sg] show ?thesis unfolding n sg using False by simp
    qed
    then show ?thesis by (simp add: sameValueZero_def intNumber_def)
  qed
qed

lemma represents_isZero: "represents x a \<Longrightarrow> isZero x \<longleftrightarrow> a = 0"
proof (cases x)
  case (Finite s m e)
  assume r: "represents x a"
  show ?thesis
  proof (cases "a = 0")
    case True
    with r show ?thesis using represents_zero [of s m e] by (simp add: Finite del: represents.simps)
  next
    case False
    from represents_sign(1) [OF r [unfolded Finite] False] show ?thesis
      using False by (simp add: Finite)
  qed
qed simp_all

lemma directEvaluation_int:
  assumes op: "op \<in> operatorKeys" and x: "represents x a" and y: "represents y b"
    and q: "exactQuotient op a b" and z: "\<bar>intEvaluation op a b\<bar> < 2 ^ 53"
  shows "sameValueZero (directEvaluation op x y) (intNumber (intEvaluation op a b))"
proof -
  consider (add) "op = ''+''" | (sub) "op = ''-''" | (mul) "op = ''*''" | (div) "op = ''/''"
    using op by (auto simp: operatorKeys_def)
  then show ?thesis
  proof cases
    case add
    then have "directEvaluation op x y = numAdd x y" "intEvaluation op a b = a + b"
      by (simp_all add: directEvaluation_def intEvaluation_def)
    then show ?thesis using numAdd_represents [OF x y] z by simp
  next
    case sub
    then have d: "directEvaluation op x y = numAdd x (unaryMinus y)"
      and i: "intEvaluation op a b = a + (- b)"
      by (simp_all add: directEvaluation_def intEvaluation_def numSub_def)
    from z have "\<bar>a + (- b)\<bar> < 2 ^ 53" unfolding i .
    from numAdd_represents [OF x represents_unaryMinus [OF y] this]
    show ?thesis unfolding d i .
  next
    case mul
    then have "directEvaluation op x y = numMul x y" "intEvaluation op a b = a * b"
      by (simp_all add: directEvaluation_def intEvaluation_def)
    then show ?thesis using numMul_represents [OF x y] z by simp
  next
    case div
    show ?thesis
    proof (cases "b = 0")
      case True
      then have "isZero y" using represents_isZero [OF y] by simp
      then have "directEvaluation op x y = Finite False 0 (- 1074)"
        by (simp add: directEvaluation_def div zero_literal)
      moreover have "intEvaluation op a b = 0" by (simp add: intEvaluation_def div True)
      ultimately show ?thesis by (simp add: sameValueZero_def intNumber_zero)
    next
      case False
      then have nz: "\<not> isZero y" using represents_isZero [OF y] by simp
      have d: "directEvaluation op x y = numDiv x y"
        and i: "intEvaluation op a b = a div b"
        using nz False by (simp_all add: directEvaluation_def intEvaluation_def div)
      have dv: "b dvd a" using q False by (simp add: exactQuotient_def div)
      from z have "\<bar>a div b\<bar> < 2 ^ 53" unfolding i .
      from numDiv_represents [OF x y False dv this] show ?thesis unfolding d i .
    qed
  qed
qed

lemma numberToString_intNumber:
  assumes "\<bar>z\<bar> < 10 ^ 15"
  shows "numberToString (intNumber z) = intString z"
proof (cases "z = 0")
  case True
  have "digitsOf 0 = ''0''" by (subst digitsOf.simps) (simp add: digitChar_def)
  then show ?thesis by (simp add: True intNumber_zero intString_def signPrefix_def)
next
  case False
  then have p: "0 < \<bar>z\<bar>" by simp
  have b: "\<bar>z\<bar> < 2 ^ 53" using assms by simp
  obtain m e where i: "intNumber z = Finite (z < 0) m e" and m: "0 < m"
    "roundFrac False \<bar>z\<bar> 1 = Finite False m e"
  proof -
    obtain m e where c: "canonical m e" and m: "0 < m"
      and r: "real_of_int m * 2 powi e = real_of_int \<bar>z\<bar>"
      using small_int_canonical [OF p b] by blast
    have "roundFrac neg \<bar>z\<bar> 1 = Finite neg m e" for neg
      using r by (intro roundFrac_exact [OF m c p]) simp_all
    then show ?thesis using m by (intro that [of m e]) (simp_all add: intNumber_def)
  qed
  have "formatDigits (shortestDigits m e) = digitsOf \<bar>z\<bar>"
    using numberToString_small_int [OF p assms] m by (simp add: signPrefix_def)
  then show ?thesis using m(1) by (simp add: i intString_def)
qed

lemma hd_digitsOf_pos: "0 < n \<Longrightarrow> hd (digitsOf n) \<noteq> CHR ''0''"
proof (induction n rule: digitsOf.induct)
  case (1 n)
  show ?case
  proof (cases "n < 10")
    case True
    have "digitVal (digitChar n) = n" using True 1(2) by (intro digitVal_digitChar) simp_all
    then have "digitChar n \<noteq> CHR ''0''" using 1(2) by auto
    then show ?thesis using True by (subst digitsOf.simps) simp
  next
    case False
    then have "0 < n div 10" by simp
    from 1(1) [OF False this] show ?thesis
      using False by (subst digitsOf.simps) simp
  qed
qed

lemma digitActions_entry: "list_all entryAction (digitActions n)"
  using digitsOf_all_digits [of _ n]
  by (auto simp: digitActions_def list_all_iff digitKeys_def isDigit_def)

lemma entered_digitActions:
  assumes "0 \<le> n"
  shows "entered (digitActions n) = digitsOf n"
proof (cases "n = 0")
  case True
  have "digitsOf 0 = ''0''" by (subst digitsOf.simps) (simp add: digitChar_def)
  then show ?thesis
    by (simp add: True entered_def digitActions_def run_Cons inputDigit_input)
next
  case False
  with assms have p: "0 < n" by simp
  define ds where "ds = map (\<lambda>ch. [ch]) (digitsOf n)"
  have a: "digitActions n = map InputDigit ds"
    by (simp add: digitActions_def ds_def)
  have ne: "ds \<noteq> []" by (simp add: ds_def)
  have k: "set ds \<subseteq> digitKeys"
    using digitsOf_all_digits [of _ n] by (auto simp: ds_def digitKeys_def isDigit_def)
  have h: "hd ds \<noteq> ''0''"
    using hd_digitsOf_pos [OF p] by (simp add: ds_def hd_map)
  have c: "concat ds = digitsOf n" by (simp add: ds_def)
  show ?thesis
    unfolding entered_def a using inputDigits_concat [OF ne k h] by (simp only: c)
qed

lemma parseFloat_intString:
  assumes "\<bar>z\<bar> < 2 ^ 53"
  shows "parseFloat (intString z) = intNumber z"
proof -
  have "parseFloat (signPrefix (z < 0) @ digitsOf \<bar>z\<bar> @ [])
      = roundDec (z < 0) (digitsVal (digitsOf \<bar>z\<bar>)) (exponentPart [])"
    by (rule parseFloat_nodot) (auto simp: digitsOf_all_digits)
  then show ?thesis
    by (simp add: intString_def digitsVal_digitsOf roundDec_zero_exp intNumber_def)
qed

lemma parseFloat_digitsOf: "0 \<le> n \<Longrightarrow> n < 2 ^ 53 \<Longrightarrow> parseFloat (digitsOf n) = intNumber n"
  using parseFloat_intString [of n] by (simp add: intString_def signPrefix_def)

lemma stored_intNumber:
  assumes r: "sameValueZero r (intNumber z)" and w: "wellformed r" and z: "\<bar>z\<bar> < 2 ^ 53"
  shows "parseFloat (numberToString r) = intNumber z"
proof (cases "isZero r")
  case True
  then have "isZero (intNumber z)" using r by (auto simp: sameValueZero_def)
  then have "z = 0" using intNumber_isZero [OF z] by simp
  then show ?thesis using True stored_number [OF w] by (simp add: intNumber_zero zero_literal)
next
  case False
  then have "r = intNumber z" using r by (auto simp: sameValueZero_def)
  then show ?thesis using False stored_number [OF w] by simp
qed

section \<open>Two operators in a row of three operands\<close>

lemma chain_states:
  assumes "list_all entryAction as" and "list_all entryAction bs" and "op1 \<in> operatorKeys"
  shows "previousValue (run (as @ [SetOperator op1] @ bs @ [SetOperator op2]) constructor)
           = Some (parseFloat (numberToString
               (applyOperator op1 (parseFloat (entered as)) (parseFloat (entered bs)))))"
    and "operator (run (as @ [SetOperator op1] @ bs @ [SetOperator op2]) constructor) = Some op2"
    and "list_all entryAction cs \<Longrightarrow>
         currentInput
           (run (as @ [SetOperator op1] @ bs @ [SetOperator op2] @ cs @ [CalculateResult])
              constructor)
         = numberToString
             (applyOperator op2
                (parseFloat (numberToString
                   (applyOperator op1 (parseFloat (entered as)) (parseFloat (entered bs)))))
                (parseFloat (entered cs)))"
proof -
  define c1 where "c1 = run as constructor"
  define c2 where "c2 = setOperator op1 c1"
  define c3 where "c3 = run bs c2"
  define c4 where "c4 = setOperator op2 c3"
  define r where "r = applyOperator op1 (parseFloat (entered as)) (parseFloat (entered bs))"
  have c1: "currentInput c1 = entered as" "operator c1 = None"
    using entry_run_pending [OF assms(1), of constructor] by (simp_all add: c1_def entered_def)
  have c2: "currentInput c2 = ''0''" "operator c2 = Some op1"
    "previousValue c2 = Some (parseFloat (entered as))"
    using c1 by (simp_all add: c2_def setOperator_fields)
  have c3: "currentInput c3 = entered bs" "operator c3 = Some op1"
    "previousValue c3 = Some (parseFloat (entered as))"
    using entry_run_pending [OF assms(2), of c2] entry_run_entered [OF assms(2) c2(1)] c2
    by (simp_all add: c3_def)
  have c4: "currentInput c4 = ''0''" "operator c4 = Some op2"
    "previousValue c4 = Some (parseFloat (numberToString r))"
    using setOperator_pending [OF c3(2) assms(3) c3(3), of op2] c3(1)
    by (simp_all add: c4_def setOperator_fields r_def)
  have r4: "run (as @ [SetOperator op1] @ bs @ [SetOperator op2]) constructor = c4"
    by (simp add: run_append run_Cons c1_def c2_def c3_def c4_def)
  show "previousValue (run (as @ [SetOperator op1] @ bs @ [SetOperator op2]) constructor)
           = Some (parseFloat (numberToString
               (applyOperator op1 (parseFloat (entered as)) (parseFloat (entered bs)))))"
    unfolding r4 r_def [symmetric] by (rule c4(3))
  show "operator (run (as @ [SetOperator op1] @ bs @ [SetOperator op2]) constructor) = Some op2"
    unfolding r4 by (rule c4(2))
  assume cs: "list_all entryAction cs"
  define c5 where "c5 = run cs c4"
  have c5: "currentInput c5 = entered cs" "operator c5 = Some op2"
    "previousValue c5 = Some (parseFloat (numberToString r))"
    using entry_run_pending [OF cs, of c4] entry_run_entered [OF cs c4(1)] c4
    by (simp_all add: c5_def)
  have "run (as @ [SetOperator op1] @ bs @ [SetOperator op2] @ cs @ [CalculateResult]) constructor
        = calculateResult c5"
    by (simp add: run_append run_Cons c1_def c2_def c3_def c4_def c5_def)
  then show "currentInput
           (run (as @ [SetOperator op1] @ bs @ [SetOperator op2] @ cs @ [CalculateResult])
              constructor)
         = numberToString
             (applyOperator op2
                (parseFloat (numberToString
                   (applyOperator op1 (parseFloat (entered as)) (parseFloat (entered bs)))))
                (parseFloat (entered cs)))"
    using calculateResult_input [OF c5(2,3)] c5(1) by (simp add: r_def)
qed

lemma entered_number:
  assumes "0 \<le> n" "n < 10 ^ 15"
  shows "parseFloat (entered (digitActions n)) = intNumber n" "represents (intNumber n) n"
proof -
  have b: "n < 2 ^ 53" using assms(2) by simp
  show "parseFloat (entered (digitActions n)) = intNumber n"
    using assms(1) b by (simp add: entered_digitActions parseFloat_digitsOf)
  show "represents (intNumber n) n"
    using assms(1) b by (intro represents_intNumber) simp
qed

text \<open>
  C1.  Let \<open>op1\<close>, \<open>op2\<close> be two of the operators \<^verbatim>\<open>+\<close>, \<^verbatim>\<open>-\<close>, \<^verbatim>\<open>*\<close>, \<^verbatim>\<open>/\<close>.  From the initial
  state, entering a first operand, \<open>setOperator op1\<close>, entering a second, \<open>setOperator op2\<close>,
  entering a third and \<open>calculateResult\<close> leave in \<open>currentInput\<close> the string of
  \<open>(a op1 b) op2 c\<close>, and the second \<open>setOperator\<close> stores the intermediate result \<open>a op1 b\<close> as
  \<open>previousValue\<close>.

  For three sequences \<open>as\<close>, \<open>bs\<close>, \<open>cs\<close> of entry actions (digits, decimal point, sign), \<open>a\<close>,
  \<open>b\<close>, \<open>c\<close> are the Numbers read from the entered strings and the operation is the one of the
  specification, \<open>directEvaluation\<close>, whose division by zero gives zero; passing the
  intermediate result through \<open>currentInput\<close> as a string does not change the outcome.

  For three integers \<open>0 \<le> a, b, c < 10\<^sup>1\<^sup>5\<close> entered by their digits, the outcome is the numeral of
  the integer \<open>(a op1 b) op2 c\<close> of integer arithmetic, when both results are below \<open>10\<^sup>1\<^sup>5\<close> in
  absolute value and each quotient is exact.
\<close>

theorem chaining_left_to_right:
  assumes "op1 \<in> operatorKeys" and "op2 \<in> operatorKeys"
  shows "(list_all entryAction as \<and> list_all entryAction bs \<and> list_all entryAction cs \<longrightarrow>
            currentInput
              (run (as @ [SetOperator op1] @ bs @ [SetOperator op2] @ cs @ [CalculateResult])
                 constructor)
            = numberToString
                (directEvaluation op2
                   (directEvaluation op1 (parseFloat (entered as)) (parseFloat (entered bs)))
                   (parseFloat (entered cs))) \<and>
            previousValue (run (as @ [SetOperator op1] @ bs @ [SetOperator op2]) constructor)
            = Some (parseFloat (numberToString
                (directEvaluation op1 (parseFloat (entered as)) (parseFloat (entered bs)))))) \<and>
         (0 \<le> a \<and> a < 10 ^ 15 \<and> 0 \<le> b \<and> b < 10 ^ 15 \<and> 0 \<le> c \<and> c < 10 ^ 15 \<and>
          exactQuotient op1 a b \<and> \<bar>intEvaluation op1 a b\<bar> < 10 ^ 15 \<and>
          exactQuotient op2 (intEvaluation op1 a b) c \<and>
          \<bar>intEvaluation op2 (intEvaluation op1 a b) c\<bar> < 10 ^ 15 \<longrightarrow>
            currentInput
              (run (digitActions a @ [SetOperator op1] @ digitActions b @ [SetOperator op2]
                    @ digitActions c @ [CalculateResult]) constructor)
            = intString (intEvaluation op2 (intEvaluation op1 a b) c) \<and>
            previousValue
              (run (digitActions a @ [SetOperator op1] @ digitActions b @ [SetOperator op2])
                 constructor)
            = Some (parseFloat (intString (intEvaluation op1 a b))))"
proof (intro conjI impI)
  assume h: "list_all entryAction as \<and> list_all entryAction bs \<and> list_all entryAction cs"
  define r where "r = directEvaluation op1 (parseFloat (entered as)) (parseFloat (entered bs))"
  have ar: "applyOperator op1 (parseFloat (entered as)) (parseFloat (entered bs)) = r"
    unfolding r_def using assms(1) by (rule applyOperator_direct)
  have wf: "wellformed r"
    unfolding ar [symmetric] by (intro applyOperator_wellformed parseFloat_wellformed)
  from h have e: "list_all entryAction as" "list_all entryAction bs" "list_all entryAction cs"
    by simp_all
  have "currentInput
          (run (as @ [SetOperator op1] @ bs @ [SetOperator op2] @ cs @ [CalculateResult])
             constructor)
        = numberToString (applyOperator op2 (parseFloat (numberToString r)) (parseFloat (entered cs)))"
    using chain_states(3) [OF e(1,2) assms(1) e(3), of op2] unfolding ar .
  also have "\<dots> = numberToString (applyOperator op2 r (parseFloat (entered cs)))"
    by (rule applyOperator_roundtrip [OF wf])
  also have "\<dots> = numberToString (directEvaluation op2 r (parseFloat (entered cs)))"
    by (simp only: applyOperator_direct [OF assms(2)])
  finally show "currentInput
          (run (as @ [SetOperator op1] @ bs @ [SetOperator op2] @ cs @ [CalculateResult])
             constructor)
        = numberToString
            (directEvaluation op2
               (directEvaluation op1 (parseFloat (entered as)) (parseFloat (entered bs)))
               (parseFloat (entered cs)))"
    unfolding r_def .
  show "previousValue (run (as @ [SetOperator op1] @ bs @ [SetOperator op2]) constructor)
        = Some (parseFloat (numberToString
            (directEvaluation op1 (parseFloat (entered as)) (parseFloat (entered bs)))))"
    using chain_states(1) [OF e(1,2) assms(1), of op2] unfolding ar r_def .
next
  assume h: "0 \<le> a \<and> a < 10 ^ 15 \<and> 0 \<le> b \<and> b < 10 ^ 15 \<and> 0 \<le> c \<and> c < 10 ^ 15 \<and>
      exactQuotient op1 a b \<and> \<bar>intEvaluation op1 a b\<bar> < 10 ^ 15 \<and>
      exactQuotient op2 (intEvaluation op1 a b) c \<and>
      \<bar>intEvaluation op2 (intEvaluation op1 a b) c\<bar> < 10 ^ 15"
  define z1 where "z1 = intEvaluation op1 a b"
  define z2 where "z2 = intEvaluation op2 z1 c"
  from h have a: "0 \<le> a" "a < 10 ^ 15" and b: "0 \<le> b" "b < 10 ^ 15"
    and c: "0 \<le> c" "c < 10 ^ 15"
    and q1: "exactQuotient op1 a b" and b1: "\<bar>z1\<bar> < 10 ^ 15"
    and q2: "exactQuotient op2 z1 c" and b2: "\<bar>z2\<bar> < 10 ^ 15"
    by (simp_all add: z1_def z2_def)
  have s1: "\<bar>z1\<bar> < 2 ^ 53" and s2: "\<bar>z2\<bar> < 2 ^ 53" using b1 b2 by simp_all
  note na = entered_number [OF a] and nb = entered_number [OF b] and nc = entered_number [OF c]
  define r where "r = applyOperator op1 (intNumber a) (intNumber b)"
  have wf: "wellformed r"
    unfolding r_def na(1) [symmetric] nb(1) [symmetric]
    by (intro applyOperator_wellformed parseFloat_wellformed)
  have "sameValueZero (directEvaluation op1 (intNumber a) (intNumber b)) (intNumber z1)"
    unfolding z1_def using assms(1) na(2) nb(2) q1 s1 [unfolded z1_def]
    by (rule directEvaluation_int)
  then have "sameValueZero r (intNumber z1)"
    by (simp only: r_def applyOperator_direct [OF assms(1)])
  then have st: "parseFloat (numberToString r) = intNumber z1"
    using wf s1 by (rule stored_intNumber)
  have "sameValueZero (directEvaluation op2 (intNumber z1) (intNumber c)) (intNumber z2)"
    unfolding z2_def using assms(2) represents_intNumber [OF s1] nc(2) q2 s2 [unfolded z2_def]
    by (rule directEvaluation_int)
  then have fin: "numberToString (applyOperator op2 (intNumber z1) (intNumber c)) = intString z2"
    using numberToString_intNumber [OF b2]
    by (simp only: applyOperator_direct [OF assms(2)] sameValueZero_string)
  have "currentInput
          (run (digitActions a @ [SetOperator op1] @ digitActions b @ [SetOperator op2]
                @ digitActions c @ [CalculateResult]) constructor)
        = numberToString (applyOperator op2 (parseFloat (numberToString r)) (intNumber c))"
    using chain_states(3) [OF digitActions_entry [of a] digitActions_entry [of b] assms(1)
        digitActions_entry [of c], of op2]
    by (simp only: na(1) nb(1) nc(1) r_def)
  then have "currentInput
          (run (digitActions a @ [SetOperator op1] @ digitActions b @ [SetOperator op2]
                @ digitActions c @ [CalculateResult]) constructor)
        = intString z2"
    by (simp only: st fin)
  then show "currentInput
          (run (digitActions a @ [SetOperator op1] @ digitActions b @ [SetOperator op2]
                @ digitActions c @ [CalculateResult]) constructor)
        = intString (intEvaluation op2 (intEvaluation op1 a b) c)"
    unfolding z2_def z1_def .
  have "previousValue
          (run (digitActions a @ [SetOperator op1] @ digitActions b @ [SetOperator op2])
             constructor)
        = Some (parseFloat (numberToString r))"
    using chain_states(1) [OF digitActions_entry [of a] digitActions_entry [of b] assms(1),
        of op2]
    by (simp only: na(1) nb(1) r_def)
  then have "previousValue
          (run (digitActions a @ [SetOperator op1] @ digitActions b @ [SetOperator op2])
             constructor)
        = Some (parseFloat (intString z1))"
    by (simp only: st parseFloat_intString [OF s1])
  then show "previousValue
          (run (digitActions a @ [SetOperator op1] @ digitActions b @ [SetOperator op2])
             constructor)
        = Some (parseFloat (intString (intEvaluation op1 a b)))"
    unfolding z1_def .
qed

theorem chaining_left_to_right_witness:
  "''-'' \<in> operatorKeys \<and> ''/'' \<in> operatorKeys \<and>
   list_all entryAction [InputDigit ''1'', InputDigit ''2'', InputDigit ''0''] \<and>
   list_all entryAction [InputDigit ''2'', InputDigit ''0'', InputDigit ''0''] \<and>
   list_all entryAction [InputDigit ''4''] \<and>
   digitActions 120 = [InputDigit ''1'', InputDigit ''2'', InputDigit ''0''] \<and>
   digitActions 200 = [InputDigit ''2'', InputDigit ''0'', InputDigit ''0''] \<and>
   digitActions 4 = [InputDigit ''4''] \<and>
   exactQuotient ''-'' 120 200 \<and> intEvaluation ''-'' 120 200 = - 80 \<and>
   exactQuotient ''/'' (- 80) 4 \<and> intEvaluation ''/'' (- 80) 4 = - 20 \<and>
   currentInput
     (run ([InputDigit ''1'', InputDigit ''2'', InputDigit ''0''] @ [SetOperator ''-'']
           @ [InputDigit ''2'', InputDigit ''0'', InputDigit ''0''] @ [SetOperator ''/'']
           @ [InputDigit ''4''] @ [CalculateResult]) constructor) = ''-20'' \<and>
   previousValue
     (run ([InputDigit ''1'', InputDigit ''2'', InputDigit ''0''] @ [SetOperator ''-'']
           @ [InputDigit ''2'', InputDigit ''0'', InputDigit ''0''] @ [SetOperator ''/''])
        constructor) = Some (parseFloat ''-80'') \<and>
   numberToString
     (directEvaluation ''/'' (directEvaluation ''-'' (parseFloat ''120'') (parseFloat ''200''))
        (parseFloat ''4'')) = ''-20''"
proof -
  have k: "''-'' \<in> operatorKeys" "''/'' \<in> operatorKeys" by (simp_all add: operatorKeys_def)
  have l: "list_all entryAction [InputDigit ''1'', InputDigit ''2'', InputDigit ''0'']"
    "list_all entryAction [InputDigit ''2'', InputDigit ''0'', InputDigit ''0'']"
    "list_all entryAction [InputDigit ''4'']"
    by (simp_all add: digitKeys_def)
  have d: "digitActions 120 = [InputDigit ''1'', InputDigit ''2'', InputDigit ''0'']"
    "digitActions 200 = [InputDigit ''2'', InputDigit ''0'', InputDigit ''0'']"
    "digitActions 4 = [InputDigit ''4'']"
    by code_simp+
  have e: "entered [InputDigit ''1'', InputDigit ''2'', InputDigit ''0''] = ''120''"
    "entered [InputDigit ''2'', InputDigit ''0'', InputDigit ''0''] = ''200''"
    "entered [InputDigit ''4''] = ''4''"
    by (simp_all add: entered_def run_def inputDigit_def)
  have i: "intEvaluation ''-'' 120 200 = - 80" "intEvaluation ''/'' (- 80) 4 = - 20"
    by (simp_all add: intEvaluation_def)
  have q: "exactQuotient ''-'' 120 200" "exactQuotient ''/'' (- 80) 4"
    by (simp_all add: exactQuotient_def)
  have s: "intString (- 80) = ''-80''" "intString (- 20) = ''-20''"
    by code_simp+
  have b: "(0::int) \<le> 120 \<and> (120::int) < 10 ^ 15 \<and> (0::int) \<le> 200 \<and> (200::int) < 10 ^ 15 \<and>
      (0::int) \<le> 4 \<and> (4::int) < 10 ^ 15 \<and>
      exactQuotient ''-'' 120 200 \<and> \<bar>intEvaluation ''-'' 120 200\<bar> < 10 ^ 15 \<and>
      exactQuotient ''/'' (intEvaluation ''-'' 120 200) 4 \<and>
      \<bar>intEvaluation ''/'' (intEvaluation ''-'' 120 200) 4\<bar> < 10 ^ 15"
    using q by (simp add: i)
  note t = chaining_left_to_right [OF k, of "[InputDigit ''1'', InputDigit ''2'', InputDigit ''0'']"
      "[InputDigit ''2'', InputDigit ''0'', InputDigit ''0'']" "[InputDigit ''4'']" 120 200 4]
  from t b have p: "currentInput
     (run (digitActions 120 @ [SetOperator ''-''] @ digitActions 200 @ [SetOperator ''/'']
           @ digitActions 4 @ [CalculateResult]) constructor)
       = intString (intEvaluation ''/'' (intEvaluation ''-'' 120 200) 4)"
    "previousValue
     (run (digitActions 120 @ [SetOperator ''-''] @ digitActions 200 @ [SetOperator ''/''])
        constructor) = Some (parseFloat (intString (intEvaluation ''-'' 120 200)))"
    by blast+
  from t l have g: "currentInput
     (run ([InputDigit ''1'', InputDigit ''2'', InputDigit ''0''] @ [SetOperator ''-'']
           @ [InputDigit ''2'', InputDigit ''0'', InputDigit ''0''] @ [SetOperator ''/'']
           @ [InputDigit ''4''] @ [CalculateResult]) constructor)
       = numberToString
          (directEvaluation ''/''
             (directEvaluation ''-''
                (parseFloat (entered [InputDigit ''1'', InputDigit ''2'', InputDigit ''0'']))
                (parseFloat (entered [InputDigit ''2'', InputDigit ''0'', InputDigit ''0''])))
             (parseFloat (entered [InputDigit ''4''])))"
    by blast
  have p': "currentInput
     (run ([InputDigit ''1'', InputDigit ''2'', InputDigit ''0''] @ [SetOperator ''-'']
           @ [InputDigit ''2'', InputDigit ''0'', InputDigit ''0''] @ [SetOperator ''/'']
           @ [InputDigit ''4''] @ [CalculateResult]) constructor) = ''-20''"
    "previousValue
     (run ([InputDigit ''1'', InputDigit ''2'', InputDigit ''0''] @ [SetOperator ''-'']
           @ [InputDigit ''2'', InputDigit ''0'', InputDigit ''0''] @ [SetOperator ''/''])
        constructor) = Some (parseFloat ''-80'')"
    using p unfolding d i s by simp_all
  have g': "numberToString
     (directEvaluation ''/'' (directEvaluation ''-'' (parseFloat ''120'') (parseFloat ''200''))
        (parseFloat ''4'')) = ''-20''"
    using g unfolding e p'(1) by simp
  from k l d q i p' g' show ?thesis by (simp only: simp_thms)
qed

end
